theory Spec2Isabelle
  imports Main "HOL-Library.Word"
begin

section \<open>Descriptor control blocks: the data of \<^verbatim>\<open>server/core/dcb.c\<close>\<close>

text \<open>
  A DCB lives at an address; \<^verbatim>\<open>NULL\<close> is \<open>None\<close>. The enumeration
  \<^verbatim>\<open>dcb_state_t\<close> is declared in \<^verbatim>\<open>dcb.h\<close>; its members are the case labels of
  \<^verbatim>\<open>dcb_set_state_nomutex\<close>.
\<close>

type_synonym ptr = nat

datatype dcb_state_t =
    DCB_STATE_UNDEFINED
  | DCB_STATE_ALLOC
  | DCB_STATE_POLLING
  | DCB_STATE_LISTENING
  | DCB_STATE_DISCONNECTED
  | DCB_STATE_FREED
  | DCB_STATE_ZOMBIE
  | DCB_STATE_NOPOLLING

text \<open>
  Modelled from the spec: the declaration of \<^verbatim>\<open>dcb_role_t\<close> (in \<^verbatim>\<open>dcb.h\<close>) is missing;
  section 3.1 names the three roles. Only \<^verbatim>\<open>DCB_ROLE_REQUEST_HANDLER\<close> occurs in the code.
\<close>

datatype dcb_role_t = DCB_ROLE_REQUEST_HANDLER | DCB_ROLE_LISTENER | DCB_ROLE_INTERNAL

text \<open>
  A buffer chain (\<^verbatim>\<open>GWBUF *\<close>) is the list of its segments, the empty chain being
  \<^verbatim>\<open>NULL\<close>; a segment is the bytes between its \<^verbatim>\<open>start\<close> and \<^verbatim>\<open>end\<close>.
\<close>

type_synonym byte = "8 word"
type_synonym GWBUF = "byte list list"

text \<open>
  Modelled from the spec: the bitmask utilities (\<^verbatim>\<open>bitmask.c\<close>) are missing. The glossary
  describes a bitmask as a set of worker-thread ids, one bit per worker; a bit is an
  \<^verbatim>\<open>int\<close> in the calls of \<^verbatim>\<open>dcb.c\<close>.
\<close>

type_synonym GWBITMASK = "int set"

definition bitmask_clear :: "GWBITMASK \<Rightarrow> int \<Rightarrow> GWBITMASK" where
  "bitmask_clear bitmask b = bitmask - {b}"

definition bitmask_isallclear :: "GWBITMASK \<Rightarrow> bool" where
  "bitmask_isallclear bitmask \<longleftrightarrow> bitmask = {}"

text \<open>
  The fields of \<^verbatim>\<open>struct dcb\<close> that the functions below read or write. The nested
  \<^verbatim>\<open>memdata.next\<close>, \<^verbatim>\<open>memdata.bitmask\<close> and \<^verbatim>\<open>stats.n_*\<close> are flattened into
  \<open>memdata_next\<close>, \<open>memdata_bitmask\<close> and \<open>stats_n_*\<close>. \<open>session\<close> is the address
  of the session, \<open>protocol\<close>, \<open>data\<close> and \<open>remote\<close> say whether the owned block is
  there (non-\<^verbatim>\<open>NULL\<close>).
\<close>

record DCB =
  dcb_role :: dcb_role_t
  fd :: int
  state :: dcb_state_t
  "next" :: "ptr option"
  memdata_next :: "ptr option"
  memdata_bitmask :: GWBITMASK
  writeq :: GWBUF
  delayq :: GWBUF
  session :: "ptr option"
  protocol :: bool
  data :: bool
  remote :: bool
  command :: int
  stats_n_reads :: int
  stats_n_writes :: int
  stats_n_buffered :: int
  stats_n_accepts :: int

section \<open>The write queue and the read path\<close>

text \<open>
  Modelled from the spec: the buffer-chain utilities (\<^verbatim>\<open>gwbuf.c\<close>) are missing. A chain
  is a linked sequence of owned byte-buffer segments: \<^verbatim>\<open>gwbuf_append\<close> links the second
  chain behind the first, \<^verbatim>\<open>gwbuf_consume\<close> drops bytes from the front of the first segment
  and unlinks the segment once it is empty.
\<close>

definition gwbuf_append :: "GWBUF \<Rightarrow> GWBUF \<Rightarrow> GWBUF" where
  "gwbuf_append head tail = head @ tail"

fun gwbuf_consume :: "GWBUF \<Rightarrow> nat \<Rightarrow> GWBUF" where
  "gwbuf_consume [] n = []"
| "gwbuf_consume (b # bs) n = (if drop n b = [] then bs else drop n b # bs)"

text \<open>
  The kernel is a script: for each \<^verbatim>\<open>write\<close> the pair of the value returned and of
  \<^verbatim>\<open>errno\<close> after the call, as \<^verbatim>\<open>GW_NOINTR_CALL\<close> (a macro of \<^verbatim>\<open>gw.h\<close>, which
  repeats an interrupted call) leaves them. A script that ends while the loop still has
  data to send gives no result (\<open>None\<close>). The loop of \<^verbatim>\<open>dcb_write\<close> returns the DCB with
  its counters, the rest of the chain and \<^verbatim>\<open>saved_errno\<close>.
\<close>

type_synonym syscall = "int \<times> int"

fun dcb_write_loop :: "syscall list \<Rightarrow> DCB \<Rightarrow> GWBUF \<Rightarrow> int \<Rightarrow> (DCB \<times> GWBUF \<times> int) option" where
  "dcb_write_loop script dcb [] saved_errno = Some (dcb, [], saved_errno)"
| "dcb_write_loop [] dcb (b # bs) saved_errno = None"
| "dcb_write_loop ((w, errno) # script) dcb (b # bs) saved_errno =
     (let dcb' = dcb\<lparr>stats_n_writes := stats_n_writes dcb + 1\<rparr> in
      if w < 0 then Some (dcb', b # bs, errno)
      else dcb_write_loop script dcb' (gwbuf_consume (b # bs) (nat w)) errno)"

text \<open>
  \<^verbatim>\<open>EAGAIN\<close> and \<^verbatim>\<open>EWOULDBLOCK\<close> come from the platform's \<^verbatim>\<open>errno.h\<close> and are
  parameters. The result is the value returned and the DCB.
\<close>

definition dcb_write :: "int \<Rightarrow> int \<Rightarrow> syscall list \<Rightarrow> DCB \<Rightarrow> GWBUF \<Rightarrow> (int \<times> DCB) option" where
  "dcb_write EAGAIN EWOULDBLOCK script dcb queue =
    (case
       (if writeq dcb \<noteq> [] then
          Some (dcb\<lparr>writeq := gwbuf_append (writeq dcb) queue,
                    stats_n_buffered := stats_n_buffered dcb + 1\<rparr>, queue, 0)
        else
          (case dcb_write_loop script dcb queue 0 of
             None \<Rightarrow> None
           | Some (dcb1, queue', saved_errno) \<Rightarrow>
               Some (if queue' \<noteq> []
                     then dcb1\<lparr>writeq := queue', stats_n_buffered := stats_n_buffered dcb1 + 1\<rparr>
                     else dcb1\<lparr>writeq := queue'\<rparr>, queue', saved_errno)))
     of
       None \<Rightarrow> None
     | Some (dcb', queue', saved_errno) \<Rightarrow>
         Some (if queue' \<noteq> [] \<and> (saved_errno \<noteq> EAGAIN \<or> saved_errno \<noteq> EWOULDBLOCK)
               then 0 else 1, dcb'))"

text \<open>
  What is left of a chain once the writes at the front of the script that did not fail
  have been taken off it.
\<close>

definition unsent :: "syscall list \<Rightarrow> GWBUF \<Rightarrow> GWBUF" where
  "unsent script queue =
     foldl gwbuf_consume queue (map (\<lambda>x. nat (fst x)) (takeWhile (\<lambda>x. 0 \<le> fst x) script))"

text \<open>The \<^verbatim>\<open>errno\<close> of the first write of the script that failed, if one did.\<close>

fun first_failure :: "syscall list \<Rightarrow> int option" where
  "first_failure [] = None"
| "first_failure ((w, errno) # script) = (if w < 0 then Some errno else first_failure script)"

text \<open>
  One turn of the loop of \<^verbatim>\<open>dcb_read\<close> as the environment decides it: whether
  \<^verbatim>\<open>gwbuf_alloc\<close> gave a buffer, what \<^verbatim>\<open>read\<close> returned and the \<^verbatim>\<open>errno\<close> it left,
  the bytes the buffer's memory holds after the call, and the return value and the count of
  the \<^verbatim>\<open>FIONREAD\<close> query that follows.
\<close>

record read_step =
  alloc_ok :: bool
  read_n :: int
  read_errno :: int
  read_mem :: "byte list"
  ioctl_rc :: int
  ioctl_b :: int

text \<open>
  The segment \<^verbatim>\<open>gwbuf_alloc (bufsize)\<close> returns is \<open>bufsize\<close> bytes long; the code does
  not shorten it to the count that \<^verbatim>\<open>read\<close> returned. Bytes that the environment does
  not supply read as 0.
\<close>

definition filled_buffer :: "int \<Rightarrow> byte list \<Rightarrow> byte list" where
  "filled_buffer bufsize mem =
     take (nat bufsize) mem @ replicate (nat bufsize - length mem) 0"

fun dcb_read_loop ::
  "int \<Rightarrow> int \<Rightarrow> int \<Rightarrow> read_step list \<Rightarrow> DCB \<Rightarrow> GWBUF \<Rightarrow> int \<Rightarrow> int \<Rightarrow> (int \<times> DCB \<times> GWBUF) option" where
  "dcb_read_loop MAX_BUFFER_SIZE EAGAIN EWOULDBLOCK [] dcb head b n =
     (if b > 0 then None else Some (n, dcb, head))"
| "dcb_read_loop MAX_BUFFER_SIZE EAGAIN EWOULDBLOCK (s # steps) dcb head b n =
     (if b > 0 then
        (let bufsize = (if b < MAX_BUFFER_SIZE then b else MAX_BUFFER_SIZE) in
         if \<not> alloc_ok s then Some (if n \<noteq> 0 then n else - 1, dcb, head)
         else
           (let n' = read_n s;
                dcb' = dcb\<lparr>stats_n_reads := stats_n_reads dcb + 1\<rparr> in
            if n' < 0 then
              (if read_errno s = EAGAIN \<or> read_errno s = EWOULDBLOCK
               then Some (n', dcb', head)
               else Some (if n' \<noteq> 0 then n' else - 1, dcb', head))
            else if n' = 0 then Some (n', dcb', head)
            else
              (let head' = gwbuf_append head [filled_buffer bufsize (read_mem s)] in
               if ioctl_rc s = - 1 then Some (- 1, dcb', head')
               else dcb_read_loop MAX_BUFFER_SIZE EAGAIN EWOULDBLOCK steps dcb' head'
                      (ioctl_b s) n')))
      else Some (n, dcb, head))"

text \<open>
  \<^verbatim>\<open>MAX_BUFFER_SIZE\<close> is a macro of a header that is not at hand, hence a parameter. The
  first \<^verbatim>\<open>FIONREAD\<close> query is the pair \<open>(rc, b)\<close>.
\<close>

definition dcb_read ::
  "int \<Rightarrow> int \<Rightarrow> int \<Rightarrow> int \<times> int \<Rightarrow> read_step list \<Rightarrow> DCB \<Rightarrow> GWBUF \<Rightarrow> (int \<times> DCB \<times> GWBUF) option" where
  "dcb_read MAX_BUFFER_SIZE EAGAIN EWOULDBLOCK first steps dcb head =
     (if fst first = - 1 then Some (- 1, dcb, head)
      else dcb_read_loop MAX_BUFFER_SIZE EAGAIN EWOULDBLOCK steps dcb head (snd first) 0)"


definition step_ok :: "int \<Rightarrow> int \<Rightarrow> read_step" where
  "step_ok n b = \<lparr>alloc_ok = True, read_n = n, read_errno = 0, read_mem = [],
                  ioctl_rc = 0, ioctl_b = b\<rparr>"

section \<open>The state machine\<close>

text \<open>
  \<^verbatim>\<open>dcb_set_state_nomutex\<close> returns its local \<^verbatim>\<open>succp\<close>, declared without an
  initialiser. The model returns what was assigned to it: \<open>Some b\<close> after an assignment of
  \<open>b\<close>, \<open>None\<close> when no assignment was executed, so that the caller reads an indeterminate
  value. Both callers pass a non-\<^verbatim>\<open>NULL\<close> \<^verbatim>\<open>old_state\<close>; the third component of the
  result is what is stored there. The \<^verbatim>\<open>default\<close> label of the outer switch needs a value
  outside the enumeration and has no counterpart.
\<close>

definition dcb_set_state_nomutex ::
  "DCB \<Rightarrow> dcb_state_t \<Rightarrow> DCB \<times> bool option \<times> dcb_state_t" where
  "dcb_set_state_nomutex dcb new_state =
    (let st = state dcb in
     case st of
       DCB_STATE_UNDEFINED \<Rightarrow> (dcb\<lparr>state := new_state\<rparr>, Some True, st)
     | DCB_STATE_ALLOC \<Rightarrow>
         (case new_state of
            DCB_STATE_POLLING \<Rightarrow> (dcb\<lparr>state := new_state\<rparr>, Some True, st)
          | DCB_STATE_LISTENING \<Rightarrow> (dcb\<lparr>state := new_state\<rparr>, Some True, st)
          | DCB_STATE_DISCONNECTED \<Rightarrow> (dcb\<lparr>state := new_state\<rparr>, Some True, st)
          | _ \<Rightarrow> (dcb, None, st))
     | DCB_STATE_POLLING \<Rightarrow>
         (case new_state of
            DCB_STATE_NOPOLLING \<Rightarrow> (dcb\<lparr>state := new_state\<rparr>, Some True, st)
          | DCB_STATE_LISTENING \<Rightarrow> (dcb\<lparr>state := new_state\<rparr>, Some True, st)
          | _ \<Rightarrow> (dcb, None, st))
     | DCB_STATE_LISTENING \<Rightarrow>
         (case new_state of
            DCB_STATE_POLLING \<Rightarrow> (dcb\<lparr>state := new_state\<rparr>, Some True, st)
          | _ \<Rightarrow> (dcb, None, st))
     | DCB_STATE_NOPOLLING \<Rightarrow>
         (case new_state of
            DCB_STATE_ZOMBIE \<Rightarrow> (dcb\<lparr>state := new_state\<rparr>, Some True, st)
          | DCB_STATE_POLLING \<Rightarrow> (dcb, Some True, st)
          | _ \<Rightarrow> (dcb, None, st))
     | DCB_STATE_ZOMBIE \<Rightarrow>
         (case new_state of
            DCB_STATE_DISCONNECTED \<Rightarrow> (dcb\<lparr>state := new_state\<rparr>, Some True, st)
          | DCB_STATE_POLLING \<Rightarrow> (dcb, Some True, st)
          | _ \<Rightarrow> (dcb, None, st))
     | DCB_STATE_DISCONNECTED \<Rightarrow>
         (case new_state of
            DCB_STATE_FREED \<Rightarrow> (dcb\<lparr>state := new_state\<rparr>, Some True, st)
          | _ \<Rightarrow> (dcb, None, st))
     | DCB_STATE_FREED \<Rightarrow> (dcb, None, st))"

text \<open>
  \<^verbatim>\<open>dcb_set_state\<close> takes the init lock around the call and copies the old state out when
  the caller asked for it; every caller in this file either passes \<^verbatim>\<open>NULL\<close> or ignores
  the value, so the model returns the DCB and \<^verbatim>\<open>succp\<close>.
\<close>

definition dcb_set_state :: "DCB \<Rightarrow> dcb_state_t \<Rightarrow> DCB \<times> bool option" where
  "dcb_set_state dcb new_state =
    (case dcb_set_state_nomutex dcb new_state of (dcb', succp, st) \<Rightarrow> (dcb', succp))"

text \<open>
  The table of legal transitions, written from section 4.1 of the specification: the
  pairs that are allowed, and among them the two that succeed without changing the state.
\<close>

fun legal_transition :: "dcb_state_t \<Rightarrow> dcb_state_t \<Rightarrow> bool" where
  "legal_transition DCB_STATE_UNDEFINED s' = True"
| "legal_transition DCB_STATE_ALLOC s' =
     (s' = DCB_STATE_POLLING \<or> s' = DCB_STATE_LISTENING \<or> s' = DCB_STATE_DISCONNECTED)"
| "legal_transition DCB_STATE_POLLING s' =
     (s' = DCB_STATE_NOPOLLING \<or> s' = DCB_STATE_LISTENING)"
| "legal_transition DCB_STATE_LISTENING s' = (s' = DCB_STATE_POLLING)"
| "legal_transition DCB_STATE_NOPOLLING s' =
     (s' = DCB_STATE_ZOMBIE \<or> s' = DCB_STATE_POLLING)"
| "legal_transition DCB_STATE_ZOMBIE s' =
     (s' = DCB_STATE_DISCONNECTED \<or> s' = DCB_STATE_POLLING)"
| "legal_transition DCB_STATE_DISCONNECTED s' = (s' = DCB_STATE_FREED)"
| "legal_transition DCB_STATE_FREED s' = False"

definition idempotent_noop :: "dcb_state_t \<Rightarrow> dcb_state_t \<Rightarrow> bool" where
  "idempotent_noop s s' \<longleftrightarrow>
     (s = DCB_STATE_NOPOLLING \<or> s = DCB_STATE_ZOMBIE) \<and> s' = DCB_STATE_POLLING"

text \<open>A DCB as \<^verbatim>\<open>dcb_alloc\<close> leaves it, with descriptor 7, for the concrete runs below.\<close>

definition sample_dcb :: DCB where
  "sample_dcb =
    \<lparr>dcb_role = DCB_ROLE_REQUEST_HANDLER, fd = 7, state = DCB_STATE_ALLOC, next = None,
     memdata_next = None, memdata_bitmask = {}, writeq = [], delayq = [], session = None,
     protocol = False, data = False, remote = False, command = 0, stats_n_reads = 0,
     stats_n_writes = 0, stats_n_buffered = 0, stats_n_accepts = 0\<rparr>"

section \<open>The registry, the zombie list and the world around them\<close>

text \<open>
  Modelled from the spec: sessions, services and routers are external collaborators (their
  declarations are missing); \<^verbatim>\<open>dcb_final_free\<close> reads \<^verbatim>\<open>session->service\<close>,
  \<^verbatim>\<open>service->router\<close>, \<^verbatim>\<open>service->router_instance\<close> and reads and clears
  \<^verbatim>\<open>session->router_session\<close>.
\<close>

record SERVICE =
  router :: "ptr option"
  router_instance :: ptr

record SESSION =
  service :: "SERVICE option"
  router_session :: "ptr option"

record SERVER =
  n_connections :: int
  n_current :: int

text \<open>
  The memory holds a DCB-shaped block at every address; \<open>allDCBs\<close> and \<open>zombies\<close> are the
  two static list heads. Calls that leave the file are recorded in the order they are made:
  \<^verbatim>\<open>close (fd)\<close>, \<^verbatim>\<open>poll_remove_dcb\<close>, the router's \<^verbatim>\<open>closeSession\<close> with its two
  arguments, \<^verbatim>\<open>session_free\<close>, and \<^verbatim>\<open>free (dcb)\<close>. The functions are those of a build
  without \<^verbatim>\<open>SS_DEBUG\<close>, where the assertions and \<^verbatim>\<open>ss_debug\<close> statements are empty;
  locks are not modelled, each function runs alone.
\<close>

record world =
  heap :: "ptr \<Rightarrow> DCB"
  allDCBs :: "ptr option"
  zombies :: "ptr option"
  sessions :: "ptr \<Rightarrow> SESSION"
  servers :: "ptr \<Rightarrow> SERVER"
  closed_fds :: "int list"
  poll_removed :: "ptr list"
  router_closed :: "(ptr \<times> ptr) list"
  sessions_freed :: "ptr list"
  freed :: "ptr list"

text \<open>
  A loop that follows links ends only if the list does; such loops are partial functions
  into \<open>option\<close>, \<open>None\<close> standing for a run that does not return.
\<close>

partial_function (option) registry_last :: "(ptr \<Rightarrow> DCB) \<Rightarrow> ptr \<Rightarrow> ptr option" where
  [code]: "registry_last h ptr =
     (case next (h ptr) of None \<Rightarrow> Some ptr | Some q \<Rightarrow> registry_last h q)"

text \<open>
  \<^verbatim>\<open>malloc\<close> gives an address or \<^verbatim>\<open>NULL\<close>; the fields that \<^verbatim>\<open>dcb_alloc\<close> does not
  set (\<open>fd\<close> among them) keep what the block held.
\<close>

definition dcb_alloc :: "ptr option \<Rightarrow> dcb_role_t \<Rightarrow> world \<Rightarrow> (world \<times> ptr option) option" where
  "dcb_alloc malloc role w =
    (case malloc of
       None \<Rightarrow> Some (w, None)
     | Some rval \<Rightarrow>
         (let h = (heap w)(rval := (heap w rval)
                \<lparr>dcb_role := role, state := DCB_STATE_ALLOC, next := None,
                 memdata_next := None, memdata_bitmask := {}, writeq := [], delayq := [],
                 session := None, protocol := False, data := False, remote := False,
                 command := 0, stats_n_reads := 0, stats_n_writes := 0,
                 stats_n_buffered := 0, stats_n_accepts := 0\<rparr>)
          in case allDCBs w of
               None \<Rightarrow> Some (w\<lparr>heap := h, allDCBs := Some rval\<rparr>, Some rval)
             | Some a \<Rightarrow>
                 (case registry_last h a of
                    None \<Rightarrow> None
                  | Some ptr \<Rightarrow>
                      Some (w\<lparr>heap := h(ptr := (h ptr)\<lparr>next := Some rval\<rparr>)\<rparr>, Some rval))))"

partial_function (option) zombies_walk :: "(ptr \<Rightarrow> DCB) \<Rightarrow> ptr \<Rightarrow> ptr \<Rightarrow> ptr option" where
  [code]: "zombies_walk h dcb ptr =
     (case memdata_next (h ptr) of
        None \<Rightarrow> Some ptr
      | Some q \<Rightarrow> if ptr = dcb then Some ptr else zombies_walk h dcb q)"

definition dcb_add_to_zombieslist :: "world \<Rightarrow> ptr \<Rightarrow> world option" where
  "dcb_add_to_zombieslist w dcb =
    (if state (heap w dcb) = DCB_STATE_ZOMBIE then Some w
     else
       (case
          (case zombies w of
             None \<Rightarrow> Some (w\<lparr>zombies := Some dcb\<rparr>)
           | Some z \<Rightarrow>
               (case zombies_walk (heap w) dcb z of
                  None \<Rightarrow> None
                | Some ptr \<Rightarrow>
                    if ptr \<noteq> dcb
                    then Some (w\<lparr>heap := (heap w)(ptr := (heap w ptr)\<lparr>memdata_next := Some dcb\<rparr>)\<rparr>)
                    else Some w))
        of
          None \<Rightarrow> None
        | Some w1 \<Rightarrow>
            (case dcb_set_state (heap w1 dcb) DCB_STATE_ZOMBIE of
               (d, succp) \<Rightarrow> Some (w1\<lparr>heap := (heap w1)(dcb := d)\<rparr>))))"

partial_function (option) registry_prev :: "(ptr \<Rightarrow> DCB) \<Rightarrow> ptr \<Rightarrow> ptr option \<Rightarrow> ptr option option" where
  [code]: "registry_prev h dcb ptr =
     (case ptr of
        None \<Rightarrow> Some None
      | Some q \<Rightarrow> if next (h q) \<noteq> Some dcb then registry_prev h dcb (next (h q)) else Some (Some q))"

definition registry_unlink :: "world \<Rightarrow> ptr \<Rightarrow> world option" where
  "registry_unlink w dcb =
    (if allDCBs w = Some dcb then Some (w\<lparr>allDCBs := next (heap w dcb)\<rparr>)
     else
       (case registry_prev (heap w) dcb (allDCBs w) of
          None \<Rightarrow> None
        | Some None \<Rightarrow> Some w
        | Some (Some ptr) \<Rightarrow>
            Some (w\<lparr>heap := (heap w)(ptr := (heap w ptr)\<lparr>next := next (heap w dcb)\<rparr>)\<rparr>)))"

definition close_router_session :: "world \<Rightarrow> ptr \<Rightarrow> world" where
  "close_router_session w dcb =
    (case session (heap w dcb) of
       None \<Rightarrow> w
     | Some s \<Rightarrow>
         (case service (sessions w s) of
            None \<Rightarrow> w
          | Some sv \<Rightarrow>
              if router sv \<noteq> None \<and> router_session (sessions w s) \<noteq> None then
                (let rsession = router_session (sessions w s);
                     w1 = w\<lparr>sessions := (sessions w)(s := (sessions w s)\<lparr>router_session := None\<rparr>)\<rparr>
                 in case rsession of
                      None \<Rightarrow> w1
                    | Some r \<Rightarrow> w1\<lparr>router_closed := router_closed w1 @ [(router_instance sv, r)]\<rparr>)
              else w))"

definition free_session :: "world \<Rightarrow> ptr \<Rightarrow> world" where
  "free_session w dcb =
    (case session (heap w dcb) of
       None \<Rightarrow> w
     | Some local_session \<Rightarrow>
         w\<lparr>heap := (heap w)(dcb := (heap w dcb)\<lparr>session := None\<rparr>),
           sessions_freed := sessions_freed w @ [local_session]\<rparr>)"

definition dcb_final_free :: "world \<Rightarrow> ptr \<Rightarrow> world option" where
  "dcb_final_free w dcb =
    (case registry_unlink w dcb of
       None \<Rightarrow> None
     | Some w1 \<Rightarrow>
         (let w2 = close_router_session w1 dcb;
              w3 = free_session w2 dcb
          in Some (w3\<lparr>freed := freed w3 @ [dcb]\<rparr>)))"

text \<open>
  The first loop of \<^verbatim>\<open>dcb_process_zombies\<close>, with its locals \<^verbatim>\<open>ptr\<close>, \<^verbatim>\<open>lptr\<close>,
  \<^verbatim>\<open>dcb_list\<close> and \<^verbatim>\<open>dcb\<close> and the list head \<^verbatim>\<open>zombies\<close>; it returns the memory,
  the list head and the head of the list of victims. Storing through \<^verbatim>\<open>dcb\<close> while it
  is \<^verbatim>\<open>NULL\<close> gives no result.
\<close>

partial_function (option) zombies_scan ::
  "int \<Rightarrow> (ptr \<Rightarrow> DCB) \<Rightarrow> ptr option \<Rightarrow> ptr option \<Rightarrow> ptr option \<Rightarrow> ptr option \<Rightarrow> ptr option
     \<Rightarrow> ((ptr \<Rightarrow> DCB) \<times> ptr option \<times> ptr option) option" where
  [code]: "zombies_scan threadid h zs ptr lptr dcb_list dcb =
     (case ptr of
        None \<Rightarrow> Some (h, zs, dcb_list)
      | Some p \<Rightarrow>
          (let h1 = h(p := (h p)\<lparr>memdata_bitmask := bitmask_clear (memdata_bitmask (h p)) threadid\<rparr>)
           in if bitmask_isallclear (memdata_bitmask (h1 p)) then
                (let tptr = memdata_next (h1 p);
                     zs' = (case lptr of None \<Rightarrow> tptr | Some l \<Rightarrow> zs);
                     h2 = (case lptr of
                             None \<Rightarrow> h1
                           | Some l \<Rightarrow> h1(l := (h1 l)\<lparr>memdata_next := tptr\<rparr>))
                 in case dcb_list of
                      None \<Rightarrow>
                        zombies_scan threadid (h2(p := (h2 p)\<lparr>memdata_next := None\<rparr>))
                          zs' tptr lptr (Some p) (Some p)
                    | Some dl \<Rightarrow>
                        (case dcb of
                           None \<Rightarrow> None
                         | Some d \<Rightarrow>
                             (let h3 = h2(d := (h2 d)\<lparr>memdata_next := Some p\<rparr>)
                              in zombies_scan threadid (h3(p := (h3 p)\<lparr>memdata_next := None\<rparr>))
                                   zs' tptr lptr dcb_list (Some p))))
              else zombies_scan threadid h1 zs (memdata_next (h1 p)) (Some p) dcb_list dcb))"

text \<open>
  The second loop: the descriptor is closed, the state set, the DCB released, and the next
  victim is read from the block just released (\<^verbatim>\<open>dcb_final_free (dcb)\<close> ends in
  \<^verbatim>\<open>free (dcb)\<close>, and \<^verbatim>\<open>dcb = dcb->memdata.next\<close> follows it). What a read from released
  memory yields is not the program's to say: it is the parameter \<open>released\<close>, which maps
  the address of the block and the link that was stored in it to the value the read finds.
\<close>

partial_function (option) zombies_reap ::
  "(ptr \<Rightarrow> ptr option \<Rightarrow> ptr option) \<Rightarrow> world \<Rightarrow> ptr option \<Rightarrow> world option" where
  [code]: "zombies_reap released w dcb =
     (case dcb of
        None \<Rightarrow> Some w
      | Some p \<Rightarrow>
          (let w1 = w\<lparr>closed_fds := closed_fds w @ [fd (heap w p)]\<rparr>;
               w2 = w1\<lparr>heap := (heap w1)(p := fst (dcb_set_state (heap w1 p) DCB_STATE_DISCONNECTED))\<rparr>
           in case dcb_final_free w2 p of
                None \<Rightarrow> None
              | Some w3 \<Rightarrow> zombies_reap released w3 (released p (memdata_next (heap w3 p)))))"

definition dcb_process_zombies ::
  "(ptr \<Rightarrow> ptr option \<Rightarrow> ptr option) \<Rightarrow> int \<Rightarrow> world \<Rightarrow> world option" where
  "dcb_process_zombies released threadid w =
    (if zombies w = None then Some w
     else
       (case zombies_scan threadid (heap w) (zombies w) (zombies w) None None None of
          None \<Rightarrow> None
        | Some (h, zs, dcb_list) \<Rightarrow>
            zombies_reap released (w\<lparr>heap := h, zombies := zs\<rparr>) dcb_list))"

text \<open>
  Two ways the read can go: the released block still holds its bytes, or it has been
  handed out again in the meantime and initialised by \<^verbatim>\<open>dcb_alloc\<close>, which stores
  \<^verbatim>\<open>NULL\<close> in \<^verbatim>\<open>memdata.next\<close>.
\<close>

definition intact :: "ptr \<Rightarrow> ptr option \<Rightarrow> ptr option" where
  "intact p link = link"

definition reused :: "ptr \<Rightarrow> ptr option \<Rightarrow> ptr option" where
  "reused p link = None"

text \<open>A worker after another calls \<^verbatim>\<open>dcb_process_zombies\<close>, each with its thread id.\<close>

fun process_all ::
  "(ptr \<Rightarrow> ptr option \<Rightarrow> ptr option) \<Rightarrow> int list \<Rightarrow> world \<Rightarrow> world option" where
  "process_all released [] w = Some w"
| "process_all released (t # ts) w =
     (case dcb_process_zombies released t w of
        None \<Rightarrow> None
      | Some w' \<Rightarrow> process_all released ts w')"

text \<open>
  Modelled from the spec: the module loader, \<^verbatim>\<open>session_link_dcb\<close> and the protocol's
  \<^verbatim>\<open>connect\<close> operation are missing. Section 4.6 has the loader resolve the module or
  fail, the link succeed (the DCB then refers to the session) or fail, and the operation
  return a descriptor or fail with \<open>- 1\<close>; the environment decides each outcome.
\<close>

record connect_env =
  malloc_result :: "ptr option"
  load_module_ok :: bool
  session_link_ok :: bool
  connect_fd :: int

definition dcb_connect :: "connect_env \<Rightarrow> ptr \<Rightarrow> ptr \<Rightarrow> world \<Rightarrow> (world \<times> ptr option) option" where
  "dcb_connect env server sess w =
    (case dcb_alloc (malloc_result env) DCB_ROLE_REQUEST_HANDLER w of
       None \<Rightarrow> None
     | Some (w1, None) \<Rightarrow> Some (w1, None)
     | Some (w1, Some dcb) \<Rightarrow>
         if \<not> load_module_ok env then
           (case dcb_final_free w1 dcb of None \<Rightarrow> None | Some w2 \<Rightarrow> Some (w2, None))
         else if \<not> session_link_ok env then
           (case dcb_final_free w1 dcb of None \<Rightarrow> None | Some w2 \<Rightarrow> Some (w2, None))
         else
           (let w2 = w1\<lparr>heap := (heap w1)(dcb := (heap w1 dcb)
                        \<lparr>session := Some sess, fd := connect_fd env\<rparr>)\<rparr>
            in if connect_fd env = - 1 then
                 (let w3 = w2\<lparr>heap := (heap w2)
                             (dcb := fst (dcb_set_state (heap w2 dcb) DCB_STATE_DISCONNECTED))\<rparr>
                  in case dcb_final_free w3 dcb of
                       None \<Rightarrow> None
                     | Some w4 \<Rightarrow> Some (w4, None))
               else
                 Some (w2\<lparr>servers := (servers w2)(server := (servers w2 server)
                            \<lparr>n_connections := n_connections (servers w2 server) + 1,
                             n_current := n_current (servers w2 server) + 1\<rparr>)\<rparr>,
                       Some dcb)))"

text \<open>
  Modelled from the spec: the poll layer is missing; \<^verbatim>\<open>poll_remove_dcb\<close> removes the
  descriptor from the interest set and \<^verbatim>\<open>poll_bitmask\<close> is the mask of the live workers,
  a parameter here. \<^verbatim>\<open>dcb_close\<close> branches on the \<^verbatim>\<open>succp\<close> it got back; where that was
  never assigned, the value it reads is the parameter \<open>indeterminate\<close>.
\<close>

definition dcb_close :: "bool \<Rightarrow> GWBITMASK \<Rightarrow> world \<Rightarrow> ptr \<Rightarrow> world option" where
  "dcb_close indeterminate poll_bitmask w dcb =
    (case dcb_set_state_nomutex (heap w dcb) DCB_STATE_NOPOLLING of
       (d, r, prev_state) \<Rightarrow>
         (let succp = (case r of Some b \<Rightarrow> b | None \<Rightarrow> indeterminate);
              w1 = w\<lparr>heap := (heap w)(dcb := d)\<rparr>;
              w2 = (if succp
                    then w1\<lparr>poll_removed := poll_removed w1 @ [dcb],
                            heap := (heap w1)(dcb := (heap w1 dcb)\<lparr>memdata_bitmask := poll_bitmask\<rparr>)\<rparr>
                    else w1)
          in if state (heap w2 dcb) = DCB_STATE_NOPOLLING
             then dcb_add_to_zombieslist w2 dcb
             else Some w2))"

text \<open>
  The shape of the two lists: \<open>seg nx p xs q\<close> says that following the link \<open>nx\<close> from
  \<open>p\<close> visits the cells \<open>xs\<close> and arrives at \<open>q\<close>; a list is a segment that arrives at
  \<^verbatim>\<open>NULL\<close>. The zombie list is linked by \<^verbatim>\<open>memdata.next\<close>, the registry by
  \<^verbatim>\<open>next\<close>.
\<close>

fun seg :: "(ptr \<Rightarrow> ptr option) \<Rightarrow> ptr option \<Rightarrow> ptr list \<Rightarrow> ptr option \<Rightarrow> bool" where
  "seg nx p [] q \<longleftrightarrow> p = q"
| "seg nx p (x # xs) q \<longleftrightarrow> p = Some x \<and> seg nx (nx x) xs q"

abbreviation chain :: "(ptr \<Rightarrow> ptr option) \<Rightarrow> ptr option \<Rightarrow> ptr list \<Rightarrow> bool" where
  "chain nx p xs \<equiv> seg nx p xs None"

definition nexts :: "(ptr \<Rightarrow> DCB) \<Rightarrow> ptr \<Rightarrow> ptr option" where
  "nexts h = (\<lambda>p. next (h p))"

definition mnexts :: "(ptr \<Rightarrow> DCB) \<Rightarrow> ptr \<Rightarrow> ptr option" where
  "mnexts h = (\<lambda>p. memdata_next (h p))"

definition zombie_list :: "world \<Rightarrow> ptr list \<Rightarrow> bool" where
  "zombie_list w zs \<longleftrightarrow> chain (mnexts (heap w)) (zombies w) zs"

definition registry :: "world \<Rightarrow> ptr list \<Rightarrow> bool" where
  "registry w rs \<longleftrightarrow> chain (nexts (heap w)) (allDCBs w) rs"

text \<open>
  Two concrete worlds for the runs below: one in which nothing is allocated, and one whose
  registry holds a single DCB, at address 1, polling on descriptor 7.
\<close>

definition empty_world :: world where
  "empty_world =
    \<lparr>heap = (\<lambda>p. sample_dcb), allDCBs = None, zombies = None,
     sessions = (\<lambda>s. \<lparr>service = None, router_session = None\<rparr>),
     servers = (\<lambda>s. \<lparr>n_connections = 0, n_current = 0\<rparr>),
     closed_fds = [], poll_removed = [], router_closed = [], sessions_freed = [],
     freed = []\<rparr>"

definition polling_world :: world where
  "polling_world =
    empty_world\<lparr>heap := (heap empty_world)(1 := sample_dcb\<lparr>state := DCB_STATE_POLLING\<rparr>),
                allDCBs := Some 1\<rparr>"

text \<open>
  Three more worlds: two zombies at addresses 1 and 2, on both lists, waiting for worker 0
  and for workers 0 and 1; and the same with a third DCB at address 3 that \<^verbatim>\<open>dcb_close\<close>
  has taken out of the poll set and not yet queued.
\<close>

definition zombie_world :: world where
  "zombie_world =
    empty_world\<lparr>heap := (heap empty_world)
        (1 := sample_dcb\<lparr>state := DCB_STATE_ZOMBIE, fd := 7, next := Some 2,
                        memdata_next := Some 2, memdata_bitmask := {0}\<rparr>,
         2 := sample_dcb\<lparr>state := DCB_STATE_ZOMBIE, fd := 8, memdata_bitmask := {0, 1}\<rparr>),
      allDCBs := Some 1, zombies := Some 1\<rparr>"


text \<open>The two zombies again, both waiting for worker 0 only.\<close>

definition victims_world :: world where
  "victims_world =
    zombie_world\<lparr>heap := (heap zombie_world)
        (2 := sample_dcb\<lparr>state := DCB_STATE_ZOMBIE, fd := 8, memdata_bitmask := {0}\<rparr>)\<rparr>"

text \<open>
  A zombie is reaped by the worker \<open>threadid\<close> when clearing that bit leaves its mask
  all clear.
\<close>

definition reapable :: "int \<Rightarrow> (ptr \<Rightarrow> DCB) \<Rightarrow> ptr \<Rightarrow> bool" where
  "reapable threadid h p \<longleftrightarrow>
     bitmask_isallclear (bitmask_clear (memdata_bitmask (h p)) threadid)"

text \<open>
  Two frames: memory that differs from \<open>h\<close> at most in the zombie links and masks, and
  memory that agrees with \<open>h\<close> on the fields the zombie list lives on.
\<close>

definition relinked :: "(ptr \<Rightarrow> DCB) \<Rightarrow> (ptr \<Rightarrow> DCB) \<Rightarrow> bool" where
  "relinked h h' \<longleftrightarrow>
     (\<forall>q. (h' q)\<lparr>memdata_next := None, memdata_bitmask := {}\<rparr> =
          (h q)\<lparr>memdata_next := None, memdata_bitmask := {}\<rparr>)"

definition keeps_zombie_fields :: "(ptr \<Rightarrow> DCB) \<Rightarrow> (ptr \<Rightarrow> DCB) \<Rightarrow> bool" where
  "keeps_zombie_fields h h' \<longleftrightarrow>
     (\<forall>q. state (h' q) = state (h q) \<and> fd (h' q) = fd (h q) \<and>
          memdata_next (h' q) = memdata_next (h q) \<and>
          memdata_bitmask (h' q) = memdata_bitmask (h q))"

section \<open>Transitions\<close>

lemma legal_transition_succeeds:
  assumes "legal_transition (state dcb) s'"
  shows "dcb_set_state_nomutex dcb s' =
    ((if idempotent_noop (state dcb) s' then dcb else dcb\<lparr>state := s'\<rparr>),
     Some True, state dcb)"
  using assms
  by (cases "state dcb"; cases s') (simp_all add: dcb_set_state_nomutex_def idempotent_noop_def)

lemma illegal_transition_unassigned:
  assumes "\<not> legal_transition (state dcb) s'"
  shows "dcb_set_state_nomutex dcb s' = (dcb, None, state dcb)"
  using assms
  by (cases "state dcb"; cases s') (simp_all add: dcb_set_state_nomutex_def)

text \<open>
  C2. The claim asks that a request outside the table returns failure. For
  \<^verbatim>\<open>ALLOC\<close> to \<^verbatim>\<open>ZOMBIE\<close> the code leaves the state and reports the old state, but
  returns \<^verbatim>\<open>succp\<close> without ever having assigned it: the result is not the value
  \<^verbatim>\<open>false\<close>.
\<close>

theorem set_state_alloc_to_zombie_unassigned:
  "dcb_set_state_nomutex sample_dcb DCB_STATE_ZOMBIE = (sample_dcb, None, DCB_STATE_ALLOC)
   \<and> \<not> legal_transition (state sample_dcb) DCB_STATE_ZOMBIE"
  by (simp add: dcb_set_state_nomutex_def sample_dcb_def)

text \<open>
  C10. For every request that the table does not allow, the function leaves the DCB as it
  is, stores the old state, and returns \<^verbatim>\<open>succp\<close> unassigned.
\<close>

theorem illegal_transition_returns_uninitialised:
  "\<not> legal_transition (state dcb) s' \<Longrightarrow>
     dcb_set_state_nomutex dcb s' = (dcb, None, state dcb)"
  by (cases "state dcb"; cases s') (simp_all add: dcb_set_state_nomutex_def)

theorem illegal_transition_returns_uninitialised_witness:
  "\<not> legal_transition (state (sample_dcb\<lparr>state := DCB_STATE_FREED\<rparr>)) DCB_STATE_POLLING
   \<and> dcb_set_state_nomutex (sample_dcb\<lparr>state := DCB_STATE_FREED\<rparr>) DCB_STATE_POLLING
       = (sample_dcb\<lparr>state := DCB_STATE_FREED\<rparr>, None, DCB_STATE_FREED)"
  using illegal_transition_returns_uninitialised
    [of "sample_dcb\<lparr>state := DCB_STATE_FREED\<rparr>" DCB_STATE_POLLING]
  by simp

section \<open>Writing\<close>

lemma foldl_consume_Nil: "foldl gwbuf_consume [] ns = []"
  by (induction ns) simp_all

lemma unsent_Nil: "unsent script [] = []"
  by (simp add: unsent_def foldl_consume_Nil)

lemma unsent_fail: "w < 0 \<Longrightarrow> unsent ((w, e) # script) queue = queue"
  by (simp add: unsent_def)

lemma unsent_ok: "0 \<le> w \<Longrightarrow> unsent ((w, e) # script) queue = unsent script (gwbuf_consume queue (nat w))"
  by (simp add: unsent_def)

lemma dcb_write_loop_None:
  "dcb_write_loop script dcb queue se = None \<longleftrightarrow>
     unsent script queue \<noteq> [] \<and> first_failure script = None"
proof (induction script dcb queue se rule: dcb_write_loop.induct)
  case (1 script dcb saved_errno)
  then show ?case by (simp add: unsent_Nil)
next
  case (2 dcb b bs saved_errno)
  then show ?case by (simp add: unsent_def)
next
  case (3 w errno script dcb b bs saved_errno)
  show ?case
  proof (cases "w < 0")
    case True
    then show ?thesis by (simp add: Let_def)
  next
    case False
    then have "0 \<le> w" by simp
    with 3 False show ?thesis
      by (simp add: Let_def unsent_ok del: gwbuf_consume.simps)
  qed
qed

lemma dcb_write_loop_Some:
  "dcb_write_loop script dcb queue se = Some (d', q', e') \<Longrightarrow>
     q' = unsent script queue \<and> writeq d' = writeq dcb \<and>
     (q' \<noteq> [] \<longrightarrow> first_failure script = Some e')"
proof (induction script dcb queue se rule: dcb_write_loop.induct)
  case (1 script dcb saved_errno)
  then show ?case by (auto simp add: unsent_Nil)
next
  case (2 dcb b bs saved_errno)
  then show ?case by simp
next
  case (3 w errno script dcb b bs saved_errno)
  show ?case
  proof (cases "w < 0")
    case True
    with 3(2) show ?thesis by (auto simp add: Let_def unsent_fail)
  next
    case False
    then have "0 \<le> w" by simp
    with 3 False show ?thesis
      by (simp add: Let_def unsent_ok del: gwbuf_consume.simps)
  qed
qed

lemma dcb_write_differing_errnos:
  assumes "writeq dcb = []" and "EAGAIN \<noteq> EWOULDBLOCK"
    and "dcb_write EAGAIN EWOULDBLOCK script dcb queue = Some (r, dcb')"
  shows "r = 0 \<longleftrightarrow> writeq dcb' \<noteq> []"
  using assms
  by (auto simp add: dcb_write_def split: option.splits if_splits)

lemma dcb_write_append:
  assumes "writeq dcb \<noteq> []"
  shows "dcb_write EAGAIN EWOULDBLOCK script dcb queue =
    Some (if queue \<noteq> [] \<and> (0 \<noteq> EAGAIN \<or> 0 \<noteq> EWOULDBLOCK) then 0 else 1,
          dcb\<lparr>writeq := writeq dcb @ queue, stats_n_buffered := stats_n_buffered dcb + 1\<rparr>)"
  using assms by (simp add: dcb_write_def gwbuf_append_def)

text \<open>
  A short write does not end the loop, which has no statement under \<^verbatim>\<open>if (w < len)\<close>:
  the code writes what is left at once. After a first write of 4 of 8 bytes, a second
  write that takes the other 4 leaves nothing to queue, and a second write that fails with
  \<^verbatim>\<open>EPIPE\<close> (32) makes the call return 0; a short write by itself neither makes the
  remainder the write queue nor settles the value returned.
\<close>

theorem dcb_write_short_write_goes_on:
  "dcb_write 11 11 [(4, 0), (4, 0)] sample_dcb [[65, 66, 67, 68, 69, 70, 71, 72]]
     = Some (1, sample_dcb\<lparr>writeq := [], stats_n_writes := 2\<rparr>) \<and>
   dcb_write 11 11 [(4, 0), (- 1, 32)] sample_dcb [[65, 66, 67, 68, 69, 70, 71, 72]]
     = Some (0, sample_dcb\<lparr>writeq := [[69, 70, 71, 72]], stats_n_writes := 2,
                            stats_n_buffered := 1\<rparr>)"
  by (simp add: dcb_write_def sample_dcb_def)

text \<open>
  C3. A call that finds the write queue empty sends the chain itself, one write after
  another, whether or not a write was short, until the chain is sent or a write fails.
  Where \<^verbatim>\<open>EWOULDBLOCK\<close> is the same number as \<^verbatim>\<open>EAGAIN\<close> (as on Linux), the call that
  returns leaves as the write queue what the writes did not take; it returns 0 exactly
  when something is left and the write that stopped the loop failed with another
  \<^verbatim>\<open>errno\<close>, and 1 exactly when the chain was sent or that write failed with
  \<^verbatim>\<open>EAGAIN\<close>. The model has no result only for a script that ends, without a failed
  write, before the chain is sent.
\<close>

theorem dcb_write_direct_send:
  assumes "writeq dcb = []" and "EAGAIN = EWOULDBLOCK"
  shows "case dcb_write EAGAIN EWOULDBLOCK script dcb queue of
           None \<Rightarrow> unsent script queue \<noteq> [] \<and> first_failure script = None
         | Some (r, dcb') \<Rightarrow>
             writeq dcb' = unsent script queue \<and> (r = 0 \<or> r = 1) \<and>
             (r = 0 \<longleftrightarrow>
                unsent script queue \<noteq> [] \<and>
                (\<exists>e. first_failure script = Some e \<and> e \<noteq> EAGAIN \<and> e \<noteq> EWOULDBLOCK)) \<and>
             (r = 1 \<longleftrightarrow>
                unsent script queue = [] \<or> first_failure script = Some EAGAIN)"
proof (cases "dcb_write_loop script dcb queue 0")
  case None
  then have "unsent script queue \<noteq> [] \<and> first_failure script = None"
    by (simp add: dcb_write_loop_None)
  with None assms show ?thesis
    by (simp add: dcb_write_def)
next
  case (Some res)
  obtain d' q' e' where res: "res = (d', q', e')" by (cases res) auto
  from dcb_write_loop_Some [OF Some [unfolded res]]
  have q': "q' = unsent script queue" and ff: "q' \<noteq> [] \<longrightarrow> first_failure script = Some e'"
    by simp_all
  from assms Some res q' ff show ?thesis
    by (auto simp add: dcb_write_def)
qed

theorem dcb_write_direct_send_witness:
  "writeq sample_dcb = [] \<and> (11::int) = 11 \<and>
   dcb_write 11 11 [(4, 0), (- 1, 11)] sample_dcb [[65, 66, 67, 68, 69, 70, 71, 72]]
     = Some (1, sample_dcb\<lparr>writeq := [[69, 70, 71, 72]], stats_n_writes := 2, stats_n_buffered := 1\<rparr>) \<and>
   unsent [(4, 0), (- 1, 11)] [[65, 66, 67, 68, 69, 70, 71, 72]] = [[69, 70, 71, 72]] \<and>
   first_failure [(4, 0), (- 1, 11)] = Some 11"
  using dcb_write_direct_send [of sample_dcb 11 11 "[(4, 0), (- 1, 11)]" "[[65, 66, 67, 68, 69, 70, 71, 72]]"]
  by (simp add: dcb_write_def sample_dcb_def unsent_def)


text \<open>
  C4. With a segment already queued, the call appends the new chain and sends nothing, but
  the test behind the lock sees the chain it was given and \<^verbatim>\<open>saved_errno\<close> still 0, and
  the call returns 0, not 1.
\<close>

theorem dcb_write_append_returns_failure:
  "dcb_write 11 11 [] (sample_dcb\<lparr>writeq := [[1]]\<rparr>) [[2]]
     = Some (0, sample_dcb\<lparr>writeq := [[1], [2]], stats_n_buffered := 1\<rparr>)"
  by (simp add: dcb_write_def sample_dcb_def gwbuf_append_def)

theorem dcb_write_append_returns_failure_witness:
  "map_option fst (dcb_write 11 11 [] (sample_dcb\<lparr>writeq := [[1]]\<rparr>) [[2]]) = Some 0"
  using dcb_write_append_returns_failure by simp


section \<open>Reading\<close>

lemma length_filled_buffer: "length (filled_buffer bufsize mem) = nat bufsize"
  by (simp add: filled_buffer_def)


lemma dcb_read_again_returns_minus_one:
  "0 < b \<Longrightarrow> alloc_ok s \<Longrightarrow> read_n s = - 1 \<Longrightarrow> read_errno s = EAGAIN \<Longrightarrow>
     dcb_read MAX_BUFFER_SIZE EAGAIN EWOULDBLOCK (0, b) (s # steps) dcb head
       = Some (- 1, dcb\<lparr>stats_n_reads := stats_n_reads dcb + 1\<rparr>, head)"
  by (simp add: dcb_read_def Let_def)

lemma dcb_read_nothing_available:
  "b \<le> 0 \<Longrightarrow> rc \<noteq> - 1 \<Longrightarrow>
     dcb_read MAX_BUFFER_SIZE EAGAIN EWOULDBLOCK (rc, b) steps dcb head = Some (0, dcb, head)"
  by (cases steps) (simp_all add: dcb_read_def)

text \<open>
  C5. Ten kilobytes wait and \<^verbatim>\<open>MAX_BUFFER_SIZE\<close> is 4096: three reads of 4096, 4096 and
  2048 bytes append three segments of these sizes, and the call returns the count of the
  last read, 2048, where the claim has the total, 10240.
\<close>

theorem dcb_read_returns_last_count:
  "map_option (\<lambda>(r, d, h). (r, map length h))
     (dcb_read 4096 11 11 (0, 10240)
        [step_ok 4096 6144, step_ok 4096 2048, step_ok 2048 0] sample_dcb [])
   = Some (2048, [4096, 4096, 2048])"
  by (simp add: dcb_read_def step_ok_def gwbuf_append_def length_filled_buffer Let_def)



lemma dcb_read_loop_sizes_prefix:
  "dcb_read_loop M EA EW steps dcb head b n = Some (r, dcb', head') \<Longrightarrow>
     \<exists>k. map length head' =
       map length head @ map (\<lambda>b. nat (min b M)) (take k (b # map ioctl_b steps))"
proof (induction steps arbitrary: dcb head b n)
  case Nil
  then have "head' = head" by (simp split: if_splits)
  then have "map length head' =
      map length head @ map (\<lambda>b. nat (min b M)) (take 0 (b # map ioctl_b []))"
    by simp
  then show ?case by blast
next
  case (Cons s steps)
  let ?buf = "filled_buffer (if b < M then b else M) (read_mem s)"
  have len: "length ?buf = nat (min b M)"
    by (simp add: length_filled_buffer min_def)
  show ?case
  proof (cases "0 < b \<and> alloc_ok s \<and> 0 < read_n s \<and> ioctl_rc s \<noteq> - 1")
    case True
    with Cons.prems have "dcb_read_loop M EA EW steps
        (dcb\<lparr>stats_n_reads := stats_n_reads dcb + 1\<rparr>) (head @ [?buf]) (ioctl_b s) (read_n s)
        = Some (r, dcb', head')"
      by (simp add: Let_def gwbuf_append_def)
    from Cons.IH [OF this] obtain k where
      "map length head' = map length (head @ [?buf]) @
         map (\<lambda>b. nat (min b M)) (take k (ioctl_b s # map ioctl_b steps))"
      by blast
    with len have "map length head' = map length head @
        map (\<lambda>b. nat (min b M)) (take (Suc k) (b # map ioctl_b (s # steps)))"
      by simp
    then show ?thesis by blast
  next
    case False
    with Cons.prems have "head' = head \<or> head' = head @ [?buf]"
      by (auto simp add: Let_def gwbuf_append_def split: if_splits)
    then show ?thesis
    proof
      assume "head' = head"
      then have "map length head' = map length head @
          map (\<lambda>b. nat (min b M)) (take 0 (b # map ioctl_b (s # steps)))"
        by simp
      then show ?thesis by blast
    next
      assume "head' = head @ [?buf]"
      with len have "map length head' = map length head @
          map (\<lambda>b. nat (min b M)) (take 1 (b # map ioctl_b (s # steps)))"
        by simp
      then show ?thesis by blast
    qed
  qed
qed



section \<open>Lists in memory\<close>

lemma seg_None [simp]: "seg nx None xs q \<longleftrightarrow> xs = [] \<and> q = None"
  by (cases xs) auto

lemma seg_append: "seg nx p (xs @ ys) q \<longleftrightarrow> (\<exists>r. seg nx p xs r \<and> seg nx r ys q)"
  by (induction xs arbitrary: p) auto

lemma chain_unique: "chain nx p xs \<Longrightarrow> chain nx p ys \<Longrightarrow> xs = ys"
proof (induction xs arbitrary: p ys)
  case Nil
  then show ?case by simp
next
  case (Cons x xs)
  then show ?case by (cases ys) auto
qed

lemma chain_head_notin:
  assumes "chain nx (nx a) xs"
  shows "a \<notin> set xs"
proof
  assume "a \<in> set xs"
  then obtain ys zs where xs: "xs = ys @ a # zs"
    by (auto simp add: in_set_conv_decomp)
  with assms have "chain nx (nx a) zs"
    by (auto simp add: seg_append)
  with assms have "xs = zs" by (rule chain_unique)
  with xs show False by simp
qed

lemma chain_distinct: "chain nx p xs \<Longrightarrow> distinct xs"
proof (induction xs arbitrary: p)
  case Nil
  then show ?case by simp
next
  case (Cons x xs)
  then show ?case by (auto dest: chain_head_notin)
qed

lemma seg_upd_notin: "a \<notin> set xs \<Longrightarrow> seg (nx(a := v)) p xs q \<longleftrightarrow> seg nx p xs q"
  by (induction xs arbitrary: p) auto

lemma seg_last_upd:
  "seg nx p xs r \<Longrightarrow> xs \<noteq> [] \<Longrightarrow> distinct xs \<Longrightarrow> seg (nx(last xs := q)) p xs q"
proof (induction xs arbitrary: p)
  case Nil
  then show ?case by simp
next
  case (Cons x xs)
  show ?case
  proof (cases "xs = []")
    case True
    with Cons.prems show ?thesis by simp
  next
    case False
    with Cons.prems have "last xs \<noteq> x" by auto
    with Cons False show ?thesis by auto
  qed
qed

lemma chain_snoc:
  assumes "chain nx p xs" and "xs \<noteq> []" and "a \<notin> set xs" and "nx a = None"
  shows "chain (nx(last xs := Some a)) p (xs @ [a])"
proof -
  from assms(1) have "distinct xs" by (rule chain_distinct)
  with assms have "seg (nx(last xs := Some a)) p xs (Some a)"
    by (simp add: seg_last_upd)
  moreover from assms have "last xs \<noteq> a" by auto
  ultimately show ?thesis using assms(4) by (auto simp add: seg_append)
qed

lemma chain_unlink:
  assumes "chain nx p (as @ q # d # bs)"
  shows "chain (nx(q := nx d)) p (as @ q # bs)"
proof -
  from assms have dist: "distinct (as @ q # d # bs)" by (rule chain_distinct)
  from assms have "seg nx p as (Some q)" and "chain nx (nx d) bs"
    by (auto simp add: seg_append)
  with dist show ?thesis
    by (auto simp add: seg_append seg_upd_notin)
qed

lemma nexts_upd [simp]: "nexts (h(p := d)) = (nexts h)(p := next d)"
  by (auto simp add: nexts_def)

lemma mnexts_upd [simp]: "mnexts (h(p := d)) = (mnexts h)(p := memdata_next d)"
  by (auto simp add: mnexts_def)

lemma nexts_upd_triv [simp]: "(nexts h)(p := next (h p)) = nexts h"
  by (auto simp add: nexts_def)

lemma mnexts_upd_triv [simp]: "(mnexts h)(p := memdata_next (h p)) = mnexts h"
  by (auto simp add: mnexts_def)

lemma nexts_apply: "nexts h p = next (h p)"
  by (simp add: nexts_def)

lemma mnexts_apply: "mnexts h p = memdata_next (h p)"
  by (simp add: mnexts_def)

lemma registry_last_chain:
  "chain (nexts h) (Some a) xs \<Longrightarrow> registry_last h a = Some (last xs)"
proof (induction xs arbitrary: a)
  case Nil
  then show ?case by simp
next
  case (Cons x xs)
  then have a: "a = x" and "chain (nexts h) (nexts h x) xs"
    by simp_all
  then have rest: "chain (nexts h) (next (h x)) xs"
    by (simp add: nexts_apply [of h x])
  show ?case
  proof (cases "next (h x)")
    case None
    with rest have "xs = []" by simp
    with None a show ?thesis
      by (subst registry_last.simps) simp
  next
    case (Some q)
    with rest have "xs \<noteq> []" by auto
    moreover from Some rest have "registry_last h q = Some (last xs)"
      by (simp add: Cons.IH)
    ultimately show ?thesis using Some a
      by (subst registry_last.simps) simp
  qed
qed


lemma registry_prev_absent:
  "chain (nexts h) p rs \<Longrightarrow> dcb \<notin> set (tl rs) \<Longrightarrow> registry_prev h dcb p = Some None"
proof (induction rs arbitrary: p)
  case Nil
  then show ?case by (subst registry_prev.simps) simp
next
  case (Cons x xs)
  then have p: "p = Some x" and "chain (nexts h) (nexts h x) xs"
    by simp_all
  then have rest: "chain (nexts h) (next (h x)) xs"
    by (simp add: nexts_apply [of h x])
  from Cons.prems rest have "next (h x) \<noteq> Some dcb"
    by (cases xs) auto
  moreover from Cons.prems have "dcb \<notin> set (tl xs)"
    by (cases xs) auto
  with rest have "registry_prev h dcb (next (h x)) = Some None"
    by (rule Cons.IH)
  ultimately show ?case using p
    by (subst registry_prev.simps) simp
qed

lemma registry_prev_found:
  "chain (nexts h) p (as @ q # dcb # bs) \<Longrightarrow> registry_prev h dcb p = Some (Some q)"
proof (induction as arbitrary: p)
  case Nil
  then show ?case
    by (subst registry_prev.simps) (simp add: nexts_apply [of h q])
next
  case (Cons x xs)
  then have p: "p = Some x" and "chain (nexts h) (nexts h x) (xs @ q # dcb # bs)"
    by simp_all
  then have rest: "chain (nexts h) (next (h x)) (xs @ q # dcb # bs)"
    by (simp add: nexts_apply [of h x])
  from Cons.prems have "distinct ((x # xs) @ q # dcb # bs)" by (rule chain_distinct)
  moreover from rest have "next (h x) = Some (hd (xs @ [q]))"
    by (cases xs) simp_all
  ultimately have "next (h x) \<noteq> Some dcb"
    by (cases xs) auto
  moreover from rest have "registry_prev h dcb (next (h x)) = Some (Some q)"
    by (rule Cons.IH)
  ultimately show ?case using p
    by (subst registry_prev.simps) simp
qed

section \<open>Queueing a zombie\<close>

lemma set_state_keeps_links:
  "memdata_next (fst (dcb_set_state d s)) = memdata_next d"
  "next (fst (dcb_set_state d s)) = next d"
  "fd (fst (dcb_set_state d s)) = fd d"
  "memdata_bitmask (fst (dcb_set_state d s)) = memdata_bitmask d"
  "session (fst (dcb_set_state d s)) = session d"
  by (cases "state d"; cases s; simp add: dcb_set_state_def dcb_set_state_nomutex_def)+

lemma set_state_legal:
  "legal_transition (state d) s \<Longrightarrow> \<not> idempotent_noop (state d) s \<Longrightarrow>
     state (fst (dcb_set_state d s)) = s"
  by (cases "state d"; cases s; simp add: dcb_set_state_def dcb_set_state_nomutex_def idempotent_noop_def)

lemma set_state_illegal:
  "\<not> legal_transition (state d) s \<Longrightarrow> fst (dcb_set_state d s) = d"
  by (cases "state d"; cases s; simp add: dcb_set_state_def dcb_set_state_nomutex_def)


lemma set_state_state:
  "state (fst (dcb_set_state d s)) =
     (if legal_transition (state d) s \<and> \<not> idempotent_noop (state d) s then s else state d)"
  by (cases "state d"; cases s;
      simp add: dcb_set_state_def dcb_set_state_nomutex_def idempotent_noop_def)




section \<open>Closing\<close>

lemma dcb_close_first:
  "map_option (\<lambda>w. (poll_removed w, memdata_bitmask (heap w 1), state (heap w 1), zombies w))
     (dcb_close indeterminate {0, 1} polling_world 1)
   = Some ([1], {0, 1}, DCB_STATE_ZOMBIE, Some 1)"
  by (simp add: dcb_close_def dcb_set_state_nomutex_def dcb_set_state_def
      dcb_add_to_zombieslist_def polling_world_def empty_world_def sample_dcb_def Let_def)

lemma dcb_close_zombie:
  assumes "state (heap w dcb) = DCB_STATE_ZOMBIE"
  shows "dcb_close indeterminate poll_bitmask w dcb =
    Some (if indeterminate
          then w\<lparr>poll_removed := poll_removed w @ [dcb],
                 heap := (heap w)(dcb := (heap w dcb)\<lparr>memdata_bitmask := poll_bitmask\<rparr>)\<rparr>
          else w)"
  using assms by (simp add: dcb_close_def dcb_set_state_nomutex_def Let_def)

lemma dcb_close_twice_benign:
  "map_option (\<lambda>w. (poll_removed w, memdata_bitmask (heap w 1), state (heap w 1), zombies w))
     (Option.bind (dcb_close False {0, 1} polling_world 1)
        (\<lambda>w. dcb_close False {0, 1, 2} w 1))
   = Some ([1], {0, 1}, DCB_STATE_ZOMBIE, Some 1)"
  by (simp add: dcb_close_def dcb_set_state_nomutex_def dcb_set_state_def
      dcb_add_to_zombieslist_def polling_world_def empty_world_def sample_dcb_def Let_def)

text \<open>
  C7. A DCB polling on its descriptor is closed twice. The second call finds it in state
  \<^verbatim>\<open>ZOMBIE\<close>, asks for \<^verbatim>\<open>NOPOLLING\<close> and gets back a \<^verbatim>\<open>succp\<close> that was never
  assigned; when the value read there is non-zero, \<^verbatim>\<open>poll_remove_dcb\<close> runs a second
  time and the thread mask taken at the first close is overwritten.
\<close>

theorem dcb_close_twice_removes_twice:
  "map_option (\<lambda>w. (poll_removed w, memdata_bitmask (heap w 1), state (heap w 1), zombies w))
     (Option.bind (dcb_close False {0, 1} polling_world 1)
        (\<lambda>w. dcb_close True {0, 1, 2} w 1))
   = Some ([1, 1], {0, 1, 2}, DCB_STATE_ZOMBIE, Some 1)"
  by (simp add: dcb_close_def dcb_set_state_nomutex_def dcb_set_state_def
      dcb_add_to_zombieslist_def polling_world_def empty_world_def sample_dcb_def Let_def)


section \<open>The registry and the final free\<close>

lemma keeps_zombie_fields_refl: "keeps_zombie_fields h h"
  by (simp add: keeps_zombie_fields_def)

lemma keeps_zombie_fields_mnexts: "keeps_zombie_fields h h' \<Longrightarrow> mnexts h' = mnexts h"
  by (auto simp add: keeps_zombie_fields_def mnexts_def)

lemma registry_unlink_chain:
  assumes "registry w rs"
  shows "\<exists>h' a'. registry_unlink w dcb = Some (w\<lparr>heap := h', allDCBs := a'\<rparr>) \<and>
      chain (nexts h') a' (removeAll dcb rs) \<and> keeps_zombie_fields (heap w) h' \<and>
      (\<forall>q. session (h' q) = session (heap w q))"
proof (cases "allDCBs w = Some dcb")
  case True
  with assms obtain rs' where rs: "rs = dcb # rs'" and ch: "chain (nexts (heap w)) (nexts (heap w) dcb) rs'"
    by (cases rs) (auto simp add: registry_def)
  from ch have "dcb \<notin> set rs'" by (rule chain_head_notin)
  then have "removeAll dcb rs = rs'" using rs by simp
  moreover have "registry_unlink w dcb = Some (w\<lparr>heap := heap w, allDCBs := next (heap w dcb)\<rparr>)"
    using True by (simp add: registry_unlink_def)
  ultimately show ?thesis using ch
    by (intro exI [of _ "heap w"] exI [of _ "next (heap w dcb)"])
      (simp add: keeps_zombie_fields_refl nexts_apply [of "heap w" dcb])
next
  case False
  from assms have ch: "chain (nexts (heap w)) (allDCBs w) rs"
    by (simp add: registry_def)
  show ?thesis
  proof (cases "dcb \<in> set rs")
    case notin: False
    then have "dcb \<notin> set (tl rs)" by (cases rs) auto
    with ch have "registry_prev (heap w) dcb (allDCBs w) = Some None"
      by (rule registry_prev_absent)
    with False have "registry_unlink w dcb = Some (w\<lparr>heap := heap w, allDCBs := allDCBs w\<rparr>)"
      by (simp add: registry_unlink_def)
    with notin ch show ?thesis
      by (intro exI [of _ "heap w"] exI [of _ "allDCBs w"])
        (simp add: keeps_zombie_fields_refl)
  next
    case True
    with ch False obtain x rs' where rs: "rs = x # rs'" and "dcb \<in> set rs'"
      by (cases rs) auto
    then obtain as' bs where "rs' = as' @ dcb # bs"
      by (auto simp add: in_set_conv_decomp)
    with rs obtain as q where split: "rs = as @ q # dcb # bs"
      by (cases as' rule: rev_cases) auto
    from ch have "distinct rs" by (rule chain_distinct)
    with split have dist: "distinct (as @ q # dcb # bs)" by simp
    from ch split have prev: "registry_prev (heap w) dcb (allDCBs w) = Some (Some q)"
      by (simp add: registry_prev_found)
    let ?h' = "(heap w)(q := (heap w q)\<lparr>next := next (heap w dcb)\<rparr>)"
    from False prev have "registry_unlink w dcb = Some (w\<lparr>heap := ?h', allDCBs := allDCBs w\<rparr>)"
      by (simp add: registry_unlink_def)
    moreover from ch split have "chain ((nexts (heap w))(q := nexts (heap w) dcb)) (allDCBs w) (as @ q # bs)"
      by (simp add: chain_unlink)
    then have "chain (nexts ?h') (allDCBs w) (as @ q # bs)"
      by (simp add: nexts_apply [of "heap w" dcb])
    moreover from dist split have "removeAll dcb rs = as @ q # bs"
      by auto
    moreover have "keeps_zombie_fields (heap w) ?h'"
      by (simp add: keeps_zombie_fields_def)
    moreover have "\<forall>r. session (?h' r) = session (heap w r)"
      by simp
    ultimately show ?thesis
      by (intro exI [of _ ?h'] exI [of _ "allDCBs w"]) simp
  qed
qed

lemma close_router_session_heap [simp]:
  "heap (close_router_session w dcb) = heap w"
  "allDCBs (close_router_session w dcb) = allDCBs w"
  "zombies (close_router_session w dcb) = zombies w"
  "servers (close_router_session w dcb) = servers w"
  "closed_fds (close_router_session w dcb) = closed_fds w"
  "poll_removed (close_router_session w dcb) = poll_removed w"
  "freed (close_router_session w dcb) = freed w"
  "sessions_freed (close_router_session w dcb) = sessions_freed w"
  by (simp_all add: close_router_session_def Let_def split: option.splits)

lemma free_session_fields [simp]:
  "allDCBs (free_session w dcb) = allDCBs w"
  "zombies (free_session w dcb) = zombies w"
  "servers (free_session w dcb) = servers w"
  "closed_fds (free_session w dcb) = closed_fds w"
  "poll_removed (free_session w dcb) = poll_removed w"
  "freed (free_session w dcb) = freed w"
  "nexts (heap (free_session w dcb)) = nexts (heap w)"
  "sessions_freed (free_session w dcb) =
     sessions_freed w @ (case session (heap w dcb) of None \<Rightarrow> [] | Some s \<Rightarrow> [s])"
  by (simp_all add: free_session_def split: option.splits)

lemma free_session_keeps [simp]:
  "keeps_zombie_fields h (heap (free_session w dcb)) = keeps_zombie_fields h (heap w)"
  by (auto simp add: free_session_def keeps_zombie_fields_def split: option.splits)

lemma dcb_final_free_effect:
  assumes "registry w rs"
  shows "\<exists>w'. dcb_final_free w dcb = Some w' \<and> registry w' (removeAll dcb rs) \<and>
      keeps_zombie_fields (heap w) (heap w') \<and> zombies w' = zombies w \<and>
      servers w' = servers w \<and> closed_fds w' = closed_fds w \<and>
      poll_removed w' = poll_removed w \<and> freed w' = freed w @ [dcb] \<and>
      sessions_freed w' =
        sessions_freed w @ (case session (heap w dcb) of None \<Rightarrow> [] | Some s \<Rightarrow> [s])"
proof -
  from registry_unlink_chain [OF assms, of dcb]
  obtain h' a' where ul: "registry_unlink w dcb = Some (w\<lparr>heap := h', allDCBs := a'\<rparr>)"
    and ch: "chain (nexts h') a' (removeAll dcb rs)"
    and keep: "keeps_zombie_fields (heap w) h'"
    and sess: "\<forall>q. session (h' q) = session (heap w q)"
    by blast
  from ul ch keep sess show ?thesis
    by (simp add: dcb_final_free_def Let_def registry_def)
qed

lemma dcb_alloc_effect:
  assumes "registry w rs" and "rval \<notin> set rs"
  shows "\<exists>h'. dcb_alloc (Some rval) role w =
           Some (w\<lparr>heap := h', allDCBs := (if rs = [] then Some rval else allDCBs w)\<rparr>, Some rval) \<and>
      chain (nexts h') (if rs = [] then Some rval else allDCBs w) (rs @ [rval]) \<and>
      state (h' rval) = DCB_STATE_ALLOC \<and> session (h' rval) = None \<and>
      memdata_next (h' rval) = None \<and>
      (\<forall>q. q \<noteq> rval \<longrightarrow> keeps_zombie_fields (\<lambda>x. heap w q) (\<lambda>x. h' q))"
proof -
  let ?d = "(heap w rval)
                \<lparr>dcb_role := role, state := DCB_STATE_ALLOC, next := None,
                 memdata_next := None, memdata_bitmask := {}, writeq := [], delayq := [],
                 session := None, protocol := False, data := False, remote := False,
                 command := 0, stats_n_reads := 0, stats_n_writes := 0,
                 stats_n_buffered := 0, stats_n_accepts := 0\<rparr>"
  let ?h = "(heap w)(rval := ?d)"
  from assms have ch: "chain (nexts ?h) (allDCBs w) rs"
    by (simp add: registry_def seg_upd_notin)
  show ?thesis
  proof (cases "allDCBs w")
    case None
    with ch have "rs = []" by simp
    with None show ?thesis
      by (intro exI [of _ ?h])
        (simp add: dcb_alloc_def Let_def keeps_zombie_fields_def nexts_apply [of ?h rval])
  next
    case (Some a)
    with ch have ne: "rs \<noteq> []" by auto
    from ch Some have last: "registry_last ?h a = Some (last rs)"
      by (simp add: registry_last_chain)
    from ne assms(2) have neq: "last rs \<noteq> rval" by auto
    have "nexts ?h rval = None" by (simp add: nexts_apply)
    with ch ne assms(2) have "chain ((nexts ?h)(last rs := Some rval)) (allDCBs w) (rs @ [rval])"
      by (rule chain_snoc)
    with Some last ne neq show ?thesis
      by (intro exI [of _ "?h(last rs := (?h (last rs))\<lparr>next := Some rval\<rparr>)"])
        (simp add: dcb_alloc_def Let_def keeps_zombie_fields_def)
  qed
qed

lemma keeps_zombie_fieldsD:
  "keeps_zombie_fields h h' \<Longrightarrow> state (h' q) = state (h q)"
  "keeps_zombie_fields h h' \<Longrightarrow> fd (h' q) = fd (h q)"
  "keeps_zombie_fields h h' \<Longrightarrow> memdata_next (h' q) = memdata_next (h q)"
  "keeps_zombie_fields h h' \<Longrightarrow> memdata_bitmask (h' q) = memdata_bitmask (h q)"
  by (simp_all add: keeps_zombie_fields_def)

lemma dcb_connect_after_alloc:
  assumes reg: "registry w1 (rs @ [dcb])" and notin: "dcb \<notin> set rs"
    and st: "state (heap w1 dcb) = DCB_STATE_ALLOC" and se: "session (heap w1 dcb) = None"
    and fail: "\<not> load_module_ok env \<or> \<not> session_link_ok env \<or> connect_fd env = - 1"
  shows "\<exists>w'.
     (if \<not> load_module_ok env then
           (case dcb_final_free w1 dcb of None \<Rightarrow> None | Some w2 \<Rightarrow> Some (w2, None))
         else if \<not> session_link_ok env then
           (case dcb_final_free w1 dcb of None \<Rightarrow> None | Some w2 \<Rightarrow> Some (w2, None))
         else
           (let w2 = w1\<lparr>heap := (heap w1)(dcb := (heap w1 dcb)
                        \<lparr>session := Some sess, fd := connect_fd env\<rparr>)\<rparr>
            in if connect_fd env = - 1 then
                 (let w3 = w2\<lparr>heap := (heap w2)
                             (dcb := fst (dcb_set_state (heap w2 dcb) DCB_STATE_DISCONNECTED))\<rparr>
                  in case dcb_final_free w3 dcb of
                       None \<Rightarrow> None
                     | Some w4 \<Rightarrow> Some (w4, None))
               else
                 Some (w2\<lparr>servers := (servers w2)(server := (servers w2 server)
                            \<lparr>n_connections := n_connections (servers w2 server) + 1,
                             n_current := n_current (servers w2 server) + 1\<rparr>)\<rparr>,
                       Some dcb))) = Some (w', None) \<and>
     registry w' rs \<and> freed w' = freed w1 @ [dcb] \<and> servers w' = servers w1 \<and>
     zombies w' = zombies w1 \<and> closed_fds w' = closed_fds w1 \<and>
     poll_removed w' = poll_removed w1 \<and>
     (\<forall>q. q \<noteq> dcb \<longrightarrow> state (heap w' q) = state (heap w1 q) \<and> fd (heap w' q) = fd (heap w1 q) \<and>
          memdata_next (heap w' q) = memdata_next (heap w1 q) \<and>
          memdata_bitmask (heap w' q) = memdata_bitmask (heap w1 q)) \<and>
     state (heap w' dcb) =
       (if load_module_ok env \<and> session_link_ok env then DCB_STATE_DISCONNECTED
        else DCB_STATE_ALLOC) \<and>
     sessions_freed w' =
       (if load_module_ok env \<and> session_link_ok env then sessions_freed w1 @ [sess]
        else sessions_freed w1)"
proof -
  from notin have rm: "removeAll dcb (rs @ [dcb]) = rs" by simp
  show ?thesis
  proof (cases "load_module_ok env \<and> session_link_ok env")
    case False
    from dcb_final_free_effect [OF reg, of dcb] rm
    obtain w' where ff: "dcb_final_free w1 dcb = Some w'" and "registry w' rs"
      and "keeps_zombie_fields (heap w1) (heap w')" and "zombies w' = zombies w1"
      and "servers w' = servers w1" and "closed_fds w' = closed_fds w1"
      and "poll_removed w' = poll_removed w1" and "freed w' = freed w1 @ [dcb]"
      and "sessions_freed w' =
        sessions_freed w1 @ (case session (heap w1 dcb) of None \<Rightarrow> [] | Some s \<Rightarrow> [s])"
      by auto
    with False st se show ?thesis
      by (intro exI [of _ w']) (auto simp add: keeps_zombie_fieldsD)
  next
    case True
    with fail have fd: "connect_fd env = - 1" by simp
    let ?w2 = "w1\<lparr>heap := (heap w1)(dcb := (heap w1 dcb)
                        \<lparr>session := Some sess, fd := connect_fd env\<rparr>)\<rparr>"
    let ?w3 = "?w2\<lparr>heap := (heap ?w2)
                 (dcb := fst (dcb_set_state (heap ?w2 dcb) DCB_STATE_DISCONNECTED))\<rparr>"
    from reg have reg3: "registry ?w3 (rs @ [dcb])"
      by (simp add: registry_def set_state_keeps_links)
    from st have st3: "state (heap ?w3 dcb) = DCB_STATE_DISCONNECTED"
      by (simp add: set_state_legal idempotent_noop_def)
    have se3: "session (heap ?w3 dcb) = Some sess"
      by (simp add: set_state_keeps_links)
    from dcb_final_free_effect [OF reg3, of dcb] rm
    obtain w' where ff: "dcb_final_free ?w3 dcb = Some w'" and "registry w' rs"
      and "keeps_zombie_fields (heap ?w3) (heap w')" and "zombies w' = zombies ?w3"
      and "servers w' = servers ?w3" and "closed_fds w' = closed_fds ?w3"
      and "poll_removed w' = poll_removed ?w3" and "freed w' = freed ?w3 @ [dcb]"
      and "sessions_freed w' =
        sessions_freed ?w3 @ (case session (heap ?w3 dcb) of None \<Rightarrow> [] | Some s \<Rightarrow> [s])"
      by auto
    with True fd st3 se3 show ?thesis
      by (intro exI [of _ w']) (simp add: keeps_zombie_fieldsD Let_def)
  qed
qed

lemma polling_world_registry: "registry polling_world [1]"
  by (simp add: registry_def polling_world_def empty_world_def sample_dcb_def nexts_def)

text \<open>
  C9. With a well-formed registry and a block from \<^verbatim>\<open>malloc\<close> that is not on it:
  when the module is not found, the session link fails or the protocol's connect returns
  \<open>- 1\<close>, \<^verbatim>\<open>dcb_connect\<close> returns \<^verbatim>\<open>NULL\<close>, the new DCB has been released by
  \<^verbatim>\<open>dcb_final_free\<close> exactly once, the registry is the one before the call, no other DCB
  has changed state, descriptor, zombie link or mask, and the server counters stand; after
  a failed connect the DCB went to \<^verbatim>\<open>DISCONNECTED\<close> first and its session was handed to
  \<^verbatim>\<open>session_free\<close>. When \<^verbatim>\<open>malloc\<close> fails the call returns \<^verbatim>\<open>NULL\<close> and nothing changes.
\<close>

theorem dcb_connect_failure:
  assumes "registry w rs"
  shows "(malloc_result env = None \<longrightarrow> dcb_connect env server sess w = Some (w, None)) \<and>
    (\<forall>dcb. malloc_result env = Some dcb \<and> dcb \<notin> set rs \<and>
        (\<not> load_module_ok env \<or> \<not> session_link_ok env \<or> connect_fd env = - 1) \<longrightarrow>
        (\<exists>w'. dcb_connect env server sess w = Some (w', None) \<and>
           registry w' rs \<and> freed w' = freed w @ [dcb] \<and>
           servers w' = servers w \<and> zombies w' = zombies w \<and>
           closed_fds w' = closed_fds w \<and> poll_removed w' = poll_removed w \<and>
           (\<forall>q. q \<noteq> dcb \<longrightarrow>
              state (heap w' q) = state (heap w q) \<and> fd (heap w' q) = fd (heap w q) \<and>
              memdata_next (heap w' q) = memdata_next (heap w q) \<and>
              memdata_bitmask (heap w' q) = memdata_bitmask (heap w q)) \<and>
           state (heap w' dcb) =
             (if load_module_ok env \<and> session_link_ok env then DCB_STATE_DISCONNECTED
              else DCB_STATE_ALLOC) \<and>
           sessions_freed w' =
             (if load_module_ok env \<and> session_link_ok env then sessions_freed w @ [sess]
              else sessions_freed w)))"
proof (intro conjI allI impI)
  assume "malloc_result env = None"
  then show "dcb_connect env server sess w = Some (w, None)"
    by (simp add: dcb_connect_def dcb_alloc_def)
next
  fix dcb
  assume a: "malloc_result env = Some dcb \<and> dcb \<notin> set rs \<and>
        (\<not> load_module_ok env \<or> \<not> session_link_ok env \<or> connect_fd env = - 1)"
  then have notin: "dcb \<notin> set rs"
    and fail: "\<not> load_module_ok env \<or> \<not> session_link_ok env \<or> connect_fd env = - 1"
    by simp_all
  from dcb_alloc_effect [OF assms notin, of DCB_ROLE_REQUEST_HANDLER]
  obtain h' where
    al: "dcb_alloc (Some dcb) DCB_ROLE_REQUEST_HANDLER w =
           Some (w\<lparr>heap := h', allDCBs := (if rs = [] then Some dcb else allDCBs w)\<rparr>, Some dcb)"
    and ch: "chain (nexts h') (if rs = [] then Some dcb else allDCBs w) (rs @ [dcb])"
    and st: "state (h' dcb) = DCB_STATE_ALLOC" and se: "session (h' dcb) = None"
    and keep: "\<forall>q. q \<noteq> dcb \<longrightarrow> keeps_zombie_fields (\<lambda>x. heap w q) (\<lambda>x. h' q)"
    by blast
  let ?w1 = "w\<lparr>heap := h', allDCBs := (if rs = [] then Some dcb else allDCBs w)\<rparr>"
  from ch have reg1: "registry ?w1 (rs @ [dcb])" by (simp add: registry_def)
  from st have st1: "state (heap ?w1 dcb) = DCB_STATE_ALLOC" by simp
  from se have se1: "session (heap ?w1 dcb) = None" by simp
  from dcb_connect_after_alloc [OF reg1 notin st1 se1 fail, of sess server]
  obtain w' where "(if \<not> load_module_ok env then
           (case dcb_final_free ?w1 dcb of None \<Rightarrow> None | Some w2 \<Rightarrow> Some (w2, None))
         else if \<not> session_link_ok env then
           (case dcb_final_free ?w1 dcb of None \<Rightarrow> None | Some w2 \<Rightarrow> Some (w2, None))
         else
           (let w2 = ?w1\<lparr>heap := (heap ?w1)(dcb := (heap ?w1 dcb)
                        \<lparr>session := Some sess, fd := connect_fd env\<rparr>)\<rparr>
            in if connect_fd env = - 1 then
                 (let w3 = w2\<lparr>heap := (heap w2)
                             (dcb := fst (dcb_set_state (heap w2 dcb) DCB_STATE_DISCONNECTED))\<rparr>
                  in case dcb_final_free w3 dcb of
                       None \<Rightarrow> None
                     | Some w4 \<Rightarrow> Some (w4, None))
               else
                 Some (w2\<lparr>servers := (servers w2)(server := (servers w2 server)
                            \<lparr>n_connections := n_connections (servers w2 server) + 1,
                             n_current := n_current (servers w2 server) + 1\<rparr>)\<rparr>,
                       Some dcb))) = Some (w', None)"
    and props: "registry w' rs" "freed w' = freed ?w1 @ [dcb]" "servers w' = servers ?w1"
     "zombies w' = zombies ?w1" "closed_fds w' = closed_fds ?w1"
     "poll_removed w' = poll_removed ?w1"
     "\<forall>q. q \<noteq> dcb \<longrightarrow> state (heap w' q) = state (heap ?w1 q) \<and> fd (heap w' q) = fd (heap ?w1 q) \<and>
          memdata_next (heap w' q) = memdata_next (heap ?w1 q) \<and>
          memdata_bitmask (heap w' q) = memdata_bitmask (heap ?w1 q)"
     "state (heap w' dcb) =
       (if load_module_ok env \<and> session_link_ok env then DCB_STATE_DISCONNECTED
        else DCB_STATE_ALLOC)"
     "sessions_freed w' =
       (if load_module_ok env \<and> session_link_ok env then sessions_freed ?w1 @ [sess]
        else sessions_freed ?w1)"
    by blast
  with a al have "dcb_connect env server sess w = Some (w', None)"
    by (simp add: dcb_connect_def)
  moreover from keep props(7) have "\<forall>q. q \<noteq> dcb \<longrightarrow>
              state (heap w' q) = state (heap w q) \<and> fd (heap w' q) = fd (heap w q) \<and>
              memdata_next (heap w' q) = memdata_next (heap w q) \<and>
              memdata_bitmask (heap w' q) = memdata_bitmask (heap w q)"
    by (simp add: keeps_zombie_fields_def)
  ultimately show "\<exists>w'. dcb_connect env server sess w = Some (w', None) \<and>
           registry w' rs \<and> freed w' = freed w @ [dcb] \<and>
           servers w' = servers w \<and> zombies w' = zombies w \<and>
           closed_fds w' = closed_fds w \<and> poll_removed w' = poll_removed w \<and>
           (\<forall>q. q \<noteq> dcb \<longrightarrow>
              state (heap w' q) = state (heap w q) \<and> fd (heap w' q) = fd (heap w q) \<and>
              memdata_next (heap w' q) = memdata_next (heap w q) \<and>
              memdata_bitmask (heap w' q) = memdata_bitmask (heap w q)) \<and>
           state (heap w' dcb) =
             (if load_module_ok env \<and> session_link_ok env then DCB_STATE_DISCONNECTED
              else DCB_STATE_ALLOC) \<and>
           sessions_freed w' =
             (if load_module_ok env \<and> session_link_ok env then sessions_freed w @ [sess]
              else sessions_freed w)"
    using props by (intro exI [of _ w']) simp
qed

theorem dcb_connect_failure_witness:
  "registry polling_world [1] \<and>
   (\<exists>w'. dcb_connect \<lparr>malloc_result = Some 2, load_module_ok = True, session_link_ok = True,
                        connect_fd = - 1\<rparr> 0 0 polling_world = Some (w', None) \<and>
      registry w' [1] \<and> freed w' = [2] \<and> state (heap w' 2) = DCB_STATE_DISCONNECTED \<and>
      sessions_freed w' = [0])"
proof -
  let ?env = "\<lparr>malloc_result = Some 2, load_module_ok = True, session_link_ok = True,
               connect_fd = - 1\<rparr>"
  from dcb_connect_failure [OF polling_world_registry, of ?env 0 0]
  have "\<exists>w'. dcb_connect ?env 0 0 polling_world = Some (w', None) \<and>
           registry w' [1] \<and> freed w' = freed polling_world @ [2] \<and>
           state (heap w' 2) = DCB_STATE_DISCONNECTED \<and>
           sessions_freed w' = sessions_freed polling_world @ [0]"
    by simp blast
  then show ?thesis
    using polling_world_registry by (simp add: polling_world_def empty_world_def)
qed


section \<open>Reaping zombies\<close>

lemma relinked_refl: "relinked h h"
  by (simp add: relinked_def)

lemma relinked_trans: "relinked h h1 \<Longrightarrow> relinked h1 h2 \<Longrightarrow> relinked h h2"
  by (simp add: relinked_def)

lemma relinked_upd_next: "relinked h (h(p := (h p)\<lparr>memdata_next := v\<rparr>))"
  by (simp add: relinked_def)

lemma relinked_upd_mask: "relinked h (h(p := (h p)\<lparr>memdata_bitmask := v\<rparr>))"
  by (simp add: relinked_def)

lemma relinkedD:
  assumes "relinked h h'"
  shows "state (h' q) = state (h q)" and "fd (h' q) = fd (h q)"
    and "next (h' q) = next (h q)" and "session (h' q) = session (h q)"
proof -
  from assms have eq: "(h' q)\<lparr>memdata_next := None, memdata_bitmask := {}\<rparr> =
          (h q)\<lparr>memdata_next := None, memdata_bitmask := {}\<rparr>"
    by (simp add: relinked_def)
  from arg_cong [OF eq, of state] show "state (h' q) = state (h q)" by simp
  from arg_cong [OF eq, of fd] show "fd (h' q) = fd (h q)" by simp
  from arg_cong [OF eq, of "next"] show "next (h' q) = next (h q)" by simp
  from arg_cong [OF eq, of session] show "session (h' q) = session (h q)" by simp
qed

lemma chain_snoc_clear:
  assumes "chain nx p xs" and "xs \<noteq> []" and "a \<notin> set xs"
  shows "chain ((nx(last xs := Some a))(a := None)) p (xs @ [a])"
proof -
  from assms(1) have "distinct xs" by (rule chain_distinct)
  with assms have "seg (nx(last xs := Some a)) p xs (Some a)"
    by (simp add: seg_last_upd)
  with assms(3) have "seg ((nx(last xs := Some a))(a := None)) p xs (Some a)"
    by (simp add: seg_upd_notin)
  then show ?thesis by (simp add: seg_append)
qed

lemma zombies_scan_step_keep:
  assumes "\<not> reapable tid h p"
  shows "zombies_scan tid h zs (Some p) lptr dcb_list dcb =
     zombies_scan tid (h(p := (h p)\<lparr>memdata_bitmask := bitmask_clear (memdata_bitmask (h p)) tid\<rparr>))
       zs (memdata_next (h p)) (Some p) dcb_list dcb"
  using assms by (subst zombies_scan.simps) (simp add: reapable_def Let_def)

lemma zombies_scan_step_reap:
  assumes "reapable tid h p"
  shows "zombies_scan tid h zs (Some p) lptr dcb_list dcb =
     (let h1 = h(p := (h p)\<lparr>memdata_bitmask := bitmask_clear (memdata_bitmask (h p)) tid\<rparr>);
          tptr = memdata_next (h p);
          zs' = (case lptr of None \<Rightarrow> tptr | Some l \<Rightarrow> zs);
          h2 = (case lptr of None \<Rightarrow> h1 | Some l \<Rightarrow> h1(l := (h1 l)\<lparr>memdata_next := tptr\<rparr>))
      in case dcb_list of
           None \<Rightarrow> zombies_scan tid (h2(p := (h2 p)\<lparr>memdata_next := None\<rparr>)) zs' tptr lptr (Some p) (Some p)
         | Some dl \<Rightarrow>
             (case dcb of
                None \<Rightarrow> None
              | Some d \<Rightarrow>
                  (let h3 = h2(d := (h2 d)\<lparr>memdata_next := Some p\<rparr>)
                   in zombies_scan tid (h3(p := (h3 p)\<lparr>memdata_next := None\<rparr>))
                        zs' tptr lptr dcb_list (Some p))))"
  using assms by (subst zombies_scan.simps) (simp add: reapable_def Let_def)

lemma zombies_scan_inv:
  assumes "chain (mnexts h) ptr rest"
    and "seg (mnexts h) zs kept ptr"
    and "lptr = (if kept = [] then None else Some (last kept))"
    and "chain (mnexts h) dcb_list vs"
    and "dcb = (if vs = [] then None else Some (last vs))"
    and "distinct (kept @ vs @ rest)"
  shows "\<exists>h' zs' dl'. zombies_scan tid h zs ptr lptr dcb_list dcb = Some (h', zs', dl') \<and>
     chain (mnexts h') zs' (kept @ filter (\<lambda>p. \<not> reapable tid h p) rest) \<and>
     chain (mnexts h') dl' (vs @ filter (reapable tid h) rest) \<and>
     relinked h h' \<and>
     (\<forall>q. memdata_bitmask (h' q) =
        (if q \<in> set rest then bitmask_clear (memdata_bitmask (h q)) tid
         else memdata_bitmask (h q)))"
  using assms
proof (induction rest arbitrary: h zs ptr lptr dcb_list dcb kept vs)
  case Nil
  then have "ptr = None" by simp
  then have "zombies_scan tid h zs ptr lptr dcb_list dcb = Some (h, zs, dcb_list)"
    by (subst zombies_scan.simps) simp
  with Nil.prems show ?case
    by (simp add: relinked_refl)
next
  case (Cons p rest)
  let ?h1 = "h(p := (h p)\<lparr>memdata_bitmask := bitmask_clear (memdata_bitmask (h p)) tid\<rparr>)"
  define tptr where "tptr = memdata_next (h p)"
  from Cons.prems(1) have ptr: "ptr = Some p" and "chain (mnexts h) (mnexts h p) rest"
    by simp_all
  then have rest: "chain (mnexts h) tptr rest"
    by (simp add: tptr_def mnexts_apply [of h p])
  have m1: "mnexts ?h1 = mnexts h" by simp
  have rl1: "relinked h ?h1" by (rule relinked_upd_mask)
  have mask1: "\<And>q. memdata_bitmask (?h1 q) =
      (if q = p then bitmask_clear (memdata_bitmask (h q)) tid else memdata_bitmask (h q))"
    by simp
  from Cons.prems(6) have p_kept: "p \<notin> set kept" and p_vs: "p \<notin> set vs"
    and p_rest: "p \<notin> set rest" and d_kept: "distinct kept" and d_vs: "distinct vs"
    and kept_vs: "set kept \<inter> set vs = {}" and kept_rest: "set kept \<inter> set rest = {}"
    and vs_rest: "set vs \<inter> set rest = {}" and d_rest: "distinct rest"
    by auto
  show ?case
  proof (cases "reapable tid h p")
    case False
    have step: "zombies_scan tid h zs ptr lptr dcb_list dcb =
        zombies_scan tid ?h1 zs tptr (Some p) dcb_list dcb"
      using False ptr by (simp add: zombies_scan_step_keep tptr_def)
    have a1: "chain (mnexts ?h1) tptr rest" using rest by simp
    have a2: "seg (mnexts ?h1) zs (kept @ [p]) tptr"
      using Cons.prems(2) ptr by (simp add: seg_append tptr_def mnexts_apply [of h p])
    have a3: "Some p = (if kept @ [p] = [] then None else Some (last (kept @ [p])))" by simp
    have a4: "chain (mnexts ?h1) dcb_list vs" using Cons.prems(4) by simp
    have a6: "distinct ((kept @ [p]) @ vs @ rest)" using Cons.prems(6) by auto
    from Cons.IH [OF a1 a2 a3 a4 Cons.prems(5) a6]
    obtain h' zs' dl' where
      r: "zombies_scan tid ?h1 zs tptr (Some p) dcb_list dcb = Some (h', zs', dl')"
      and c1: "chain (mnexts h') zs' ((kept @ [p]) @ filter (\<lambda>q. \<not> reapable tid ?h1 q) rest)"
      and c2: "chain (mnexts h') dl' (vs @ filter (reapable tid ?h1) rest)"
      and rl: "relinked ?h1 h'"
      and mask: "\<forall>q. memdata_bitmask (h' q) =
        (if q \<in> set rest then bitmask_clear (memdata_bitmask (?h1 q)) tid
         else memdata_bitmask (?h1 q))"
      by blast
    have same: "\<And>q. q \<in> set rest \<Longrightarrow> reapable tid ?h1 q = reapable tid h q"
      using p_rest by (auto simp add: reapable_def)
    then have f1: "filter (\<lambda>q. \<not> reapable tid ?h1 q) rest = filter (\<lambda>q. \<not> reapable tid h q) rest"
      and f2: "filter (reapable tid ?h1) rest = filter (reapable tid h) rest"
      by (auto intro: filter_cong)
    from mask mask1 p_rest have mask': "\<forall>q. memdata_bitmask (h' q) =
        (if q \<in> set (p # rest) then bitmask_clear (memdata_bitmask (h q)) tid
         else memdata_bitmask (h q))"
      by auto
    from r step c1 c2 f1 f2 False relinked_trans [OF rl1 rl] mask' show ?thesis
      by (intro exI [of _ h'] exI [of _ zs'] exI [of _ dl']) simp
  next
    case True
    define h2 where "h2 = (case lptr of None \<Rightarrow> ?h1 | Some l \<Rightarrow> ?h1(l := (?h1 l)\<lparr>memdata_next := tptr\<rparr>))"
    define zs2 where "zs2 = (case lptr of None \<Rightarrow> tptr | Some l \<Rightarrow> zs)"
    define h3 where "h3 = (case dcb of None \<Rightarrow> h2 | Some d \<Rightarrow> h2(d := (h2 d)\<lparr>memdata_next := Some p\<rparr>))"
    define h4 where "h4 = h3(p := (h3 p)\<lparr>memdata_next := None\<rparr>)"
    have step: "zombies_scan tid h zs ptr lptr dcb_list dcb =
        zombies_scan tid h4 zs2 tptr lptr (Some (hd (vs @ [p]))) (Some p)"
    proof (cases "vs = []")
      case True
      with Cons.prems(4,5) have "dcb_list = None" "dcb = None" by simp_all
      with True \<open>reapable tid h p\<close> ptr show ?thesis
        unfolding h4_def h3_def h2_def zs2_def tptr_def
        by (simp add: zombies_scan_step_reap Let_def)
    next
      case False
      with Cons.prems(4,5) have "dcb_list = Some (hd vs)" "dcb = Some (last vs)"
        by (cases vs; simp)+
      with False \<open>reapable tid h p\<close> ptr show ?thesis
        unfolding h4_def h3_def h2_def zs2_def tptr_def
        by (simp add: zombies_scan_step_reap Let_def)
    qed
    have nx2: "mnexts h2 = (if kept = [] then mnexts h else (mnexts h)(last kept := tptr))"
      using Cons.prems(3) by (simp add: h2_def)
    have nx3: "mnexts h3 = (if vs = [] then mnexts h2 else (mnexts h2)(last vs := Some p))"
      using Cons.prems(5) by (simp add: h3_def)
    have nx4: "mnexts h4 = (mnexts h3)(p := None)"
      by (simp add: h4_def)
    have last_kept: "kept \<noteq> [] \<longrightarrow> last kept \<notin> set vs \<and> last kept \<notin> set rest"
      using kept_vs kept_rest last_in_set [of kept] by blast
    have last_vs: "vs \<noteq> [] \<longrightarrow> last vs \<notin> set kept \<and> last vs \<notin> set rest"
      using kept_vs vs_rest last_in_set [of vs] by blast
    have k2: "seg (mnexts h2) zs2 kept tptr"
    proof (cases "kept = []")
      case True
      with Cons.prems(3) show ?thesis by (simp add: zs2_def)
    next
      case False
      with Cons.prems(2,3) d_kept show ?thesis
        by (simp add: nx2 zs2_def seg_last_upd)
    qed
    have k4: "seg (mnexts h4) zs2 kept tptr"
      using k2 p_kept last_vs by (simp add: nx4 nx3 seg_upd_notin)
    have v2: "chain (mnexts h2) dcb_list vs"
      using Cons.prems(4) last_kept by (simp add: nx2 seg_upd_notin)
    have v4: "chain (mnexts h4) (Some (hd (vs @ [p]))) (vs @ [p])"
    proof (cases "vs = []")
      case True
      then show ?thesis by (simp add: nx4)
    next
      case False
      with v2 have "dcb_list = Some (hd vs)" by (cases vs) simp_all
      with False v2 p_vs show ?thesis
        by (simp add: nx4 nx3 chain_snoc_clear)
    qed
    have r4: "chain (mnexts h4) tptr rest"
      using rest p_rest last_kept last_vs
      by (simp add: nx4 nx3 nx2 seg_upd_notin)
    have a3: "lptr = (if kept = [] then None else Some (last kept))" by (rule Cons.prems(3))
    have a5: "Some p = (if vs @ [p] = [] then None else Some (last (vs @ [p])))" by simp
    have a6: "distinct (kept @ (vs @ [p]) @ rest)" using Cons.prems(6) by auto
    have rl4: "relinked h h4"
      unfolding h4_def h3_def h2_def
      by (auto simp add: relinked_def split: option.splits)
    have mask4: "\<And>q. memdata_bitmask (h4 q) =
      (if q = p then bitmask_clear (memdata_bitmask (h q)) tid else memdata_bitmask (h q))"
      unfolding h4_def h3_def h2_def
      by (auto split: option.splits)
    from Cons.IH [OF r4 k4 a3 v4 a5 a6]
    obtain h' zs' dl' where
      r: "zombies_scan tid h4 zs2 tptr lptr (Some (hd (vs @ [p]))) (Some p) = Some (h', zs', dl')"
      and c1: "chain (mnexts h') zs' (kept @ filter (\<lambda>q. \<not> reapable tid h4 q) rest)"
      and c2: "chain (mnexts h') dl' ((vs @ [p]) @ filter (reapable tid h4) rest)"
      and rl: "relinked h4 h'"
      and mask: "\<forall>q. memdata_bitmask (h' q) =
        (if q \<in> set rest then bitmask_clear (memdata_bitmask (h4 q)) tid
         else memdata_bitmask (h4 q))"
      by blast
    have same: "\<And>q. q \<in> set rest \<Longrightarrow> reapable tid h4 q = reapable tid h q"
      using p_rest by (auto simp add: reapable_def mask4)
    then have f1: "filter (\<lambda>q. \<not> reapable tid h4 q) rest = filter (\<lambda>q. \<not> reapable tid h q) rest"
      and f2: "filter (reapable tid h4) rest = filter (reapable tid h) rest"
      by (auto intro: filter_cong)
    from mask mask4 p_rest have mask': "\<forall>q. memdata_bitmask (h' q) =
        (if q \<in> set (p # rest) then bitmask_clear (memdata_bitmask (h q)) tid
         else memdata_bitmask (h q))"
      by auto
    from r step c1 c2 f1 f2 True relinked_trans [OF rl4 rl] mask' show ?thesis
      by (intro exI [of _ h'] exI [of _ zs'] exI [of _ dl']) simp
  qed
qed

lemma relinked_nexts: "relinked h h' \<Longrightarrow> nexts h' = nexts h"
  by (auto simp add: nexts_def dest: relinkedD(3))

lemma zombies_reap_effect:
  assumes "chain (mnexts (heap w)) dcb vs" and "registry w rs"
  shows "\<exists>w'. zombies_reap intact w dcb = Some w' \<and>
     registry w' (filter (\<lambda>p. p \<notin> set vs) rs) \<and>
     zombies w' = zombies w \<and> poll_removed w' = poll_removed w \<and>
     closed_fds w' = closed_fds w @ map (\<lambda>p. fd (heap w p)) vs \<and>
     freed w' = freed w @ vs \<and>
     mnexts (heap w') = mnexts (heap w) \<and>
     (\<forall>q. fd (heap w' q) = fd (heap w q) \<and>
          memdata_bitmask (heap w' q) = memdata_bitmask (heap w q) \<and>
          state (heap w' q) =
            (if q \<in> set vs \<and> legal_transition (state (heap w q)) DCB_STATE_DISCONNECTED
             then DCB_STATE_DISCONNECTED else state (heap w q)))"
  using assms
proof (induction vs arbitrary: w dcb rs)
  case Nil
  then have "dcb = None" by simp
  then have "zombies_reap intact w dcb = Some w"
    by (subst zombies_reap.simps) simp
  with Nil.prems show ?case by simp
next
  case (Cons p vs)
  then have dcb: "dcb = Some p" and "chain (mnexts (heap w)) (mnexts (heap w) p) vs"
    by simp_all
  then have tl: "chain (mnexts (heap w)) (memdata_next (heap w p)) vs"
    by (simp add: mnexts_apply [of "heap w" p])
  from \<open>chain (mnexts (heap w)) (mnexts (heap w) p) vs\<close> have p_vs: "p \<notin> set vs"
    by (rule chain_head_notin)
  let ?w1 = "w\<lparr>closed_fds := closed_fds w @ [fd (heap w p)]\<rparr>"
  let ?w2 = "?w1\<lparr>heap := (heap ?w1)(p := fst (dcb_set_state (heap ?w1 p) DCB_STATE_DISCONNECTED))\<rparr>"
  from Cons.prems(2) have reg2: "registry ?w2 rs"
    by (simp add: registry_def set_state_keeps_links)
  have m2: "mnexts (heap ?w2) = mnexts (heap w)"
    by (simp add: set_state_keeps_links)
  from dcb_final_free_effect [OF reg2, of p]
  obtain w3 where ff: "dcb_final_free ?w2 p = Some w3"
    and reg3: "registry w3 (removeAll p rs)"
    and keep: "keeps_zombie_fields (heap ?w2) (heap w3)"
    and other: "zombies w3 = zombies ?w2" "closed_fds w3 = closed_fds ?w2"
      "poll_removed w3 = poll_removed ?w2" "freed w3 = freed ?w2 @ [p]"
    by blast
  from keep m2 have m3: "mnexts (heap w3) = mnexts (heap w)"
    by (simp add: keeps_zombie_fields_mnexts)
  then have "memdata_next (heap w3 p) = memdata_next (heap w p)"
    by (simp add: mnexts_def fun_eq_iff)
  with tl m3 have tl3: "chain (mnexts (heap w3)) (memdata_next (heap w3 p)) vs"
    by simp
  from Cons.IH [OF tl3 reg3]
  obtain w' where r: "zombies_reap intact w3 (memdata_next (heap w3 p)) = Some w'"
    and reg': "registry w' (filter (\<lambda>q. q \<notin> set vs) (removeAll p rs))"
    and other': "zombies w' = zombies w3" "poll_removed w' = poll_removed w3"
      "closed_fds w' = closed_fds w3 @ map (\<lambda>q. fd (heap w3 q)) vs"
      "freed w' = freed w3 @ vs" "mnexts (heap w') = mnexts (heap w3)"
    and fields: "\<forall>q. fd (heap w' q) = fd (heap w3 q) \<and>
          memdata_bitmask (heap w' q) = memdata_bitmask (heap w3 q) \<and>
          state (heap w' q) =
            (if q \<in> set vs \<and> legal_transition (state (heap w3 q)) DCB_STATE_DISCONNECTED
             then DCB_STATE_DISCONNECTED else state (heap w3 q))"
    by blast
  have step: "zombies_reap intact w dcb = Some w'"
    using dcb ff r by (subst zombies_reap.simps) (simp add: Let_def intact_def)
  have f3: "\<And>q. fd (heap w3 q) = fd (heap w q)"
    using keep by (simp add: keeps_zombie_fieldsD set_state_keeps_links)
  have b3: "\<And>q. memdata_bitmask (heap w3 q) = memdata_bitmask (heap w q)"
    using keep by (simp add: keeps_zombie_fieldsD set_state_keeps_links)
  have s3: "\<And>q. state (heap w3 q) =
      (if q = p \<and> legal_transition (state (heap w q)) DCB_STATE_DISCONNECTED
       then DCB_STATE_DISCONNECTED else state (heap w q))"
    using keep by (simp add: keeps_zombie_fieldsD set_state_state idempotent_noop_def)
  have filt: "filter (\<lambda>q. q \<notin> set vs) (removeAll p rs) = filter (\<lambda>q. q \<notin> set (p # vs)) rs"
    by (induction rs) auto
  have "\<forall>q. fd (heap w' q) = fd (heap w q) \<and>
          memdata_bitmask (heap w' q) = memdata_bitmask (heap w q) \<and>
          state (heap w' q) =
            (if q \<in> set (p # vs) \<and> legal_transition (state (heap w q)) DCB_STATE_DISCONNECTED
             then DCB_STATE_DISCONNECTED else state (heap w q))"
    using fields f3 b3 s3 p_vs by auto
  moreover have "closed_fds w' = closed_fds w @ map (\<lambda>q. fd (heap w q)) (p # vs)"
    using other'(3) other(2) f3 by simp
  ultimately show ?case
    using step reg' filt other other' m3
    by (intro exI [of _ w']) simp
qed

lemma relinked_world_registry:
  "registry w rs \<Longrightarrow> relinked (heap w) h' \<Longrightarrow> registry (w\<lparr>heap := h', zombies := z\<rparr>) rs"
  by (simp add: registry_def relinked_nexts)

lemma dcb_process_zombies_effect:
  assumes zl: "zombie_list w zs" and reg: "registry w rs"
  shows "\<exists>w'. dcb_process_zombies intact tid w = Some w' \<and>
     zombie_list w' (filter (\<lambda>p. \<not> reapable tid (heap w) p) zs) \<and>
     registry w' (filter (\<lambda>p. p \<notin> set (filter (reapable tid (heap w)) zs)) rs) \<and>
     closed_fds w' = closed_fds w @ map (\<lambda>p. fd (heap w p)) (filter (reapable tid (heap w)) zs) \<and>
     freed w' = freed w @ filter (reapable tid (heap w)) zs \<and>
     poll_removed w' = poll_removed w \<and>
     (\<forall>q. fd (heap w' q) = fd (heap w q) \<and>
          memdata_bitmask (heap w' q) =
            (if q \<in> set zs then bitmask_clear (memdata_bitmask (heap w q)) tid
             else memdata_bitmask (heap w q)) \<and>
          state (heap w' q) =
            (if q \<in> set zs \<and> reapable tid (heap w) q \<and>
                legal_transition (state (heap w q)) DCB_STATE_DISCONNECTED
             then DCB_STATE_DISCONNECTED else state (heap w q)))"
proof (cases "zombies w")
  case None
  with zl have "zs = []" by (simp add: zombie_list_def)
  with None zl reg show ?thesis
    by (simp add: dcb_process_zombies_def)
next
  case (Some z)
  from zl have a1: "chain (mnexts (heap w)) (zombies w) zs"
    by (simp add: zombie_list_def)
  then have dist: "distinct ([] @ [] @ zs)" by (simp add: chain_distinct)
  have a2: "seg (mnexts (heap w)) (zombies w) [] (zombies w)" by simp
  have a3: "None = (if ([]::ptr list) = [] then None else Some (last []))" by simp
  have a4: "chain (mnexts (heap w)) None []" by simp
  from zombies_scan_inv [OF a1 a2 a3 a4 a3 dist, of tid]
  obtain h' zs' dl' where
    scan: "zombies_scan tid (heap w) (zombies w) (zombies w) None None None = Some (h', zs', dl')"
    and c1: "chain (mnexts h') zs' (filter (\<lambda>p. \<not> reapable tid (heap w) p) zs)"
    and c2: "chain (mnexts h') dl' (filter (reapable tid (heap w)) zs)"
    and rl: "relinked (heap w) h'"
    and mask: "\<forall>q. memdata_bitmask (h' q) =
        (if q \<in> set zs then bitmask_clear (memdata_bitmask (heap w q)) tid
         else memdata_bitmask (heap w q))"
    by auto
  let ?w1 = "w\<lparr>heap := h', zombies := zs'\<rparr>"
  let ?vs = "filter (reapable tid (heap w)) zs"
  from reg rl have reg1: "registry ?w1 rs" by (rule relinked_world_registry)
  from c2 have c2': "chain (mnexts (heap ?w1)) dl' ?vs" by simp
  from zombies_reap_effect [OF c2' reg1]
  obtain w' where r: "zombies_reap intact ?w1 dl' = Some w'"
    and reg': "registry w' (filter (\<lambda>p. p \<notin> set ?vs) rs)"
    and other: "zombies w' = zombies ?w1" "poll_removed w' = poll_removed ?w1"
      "closed_fds w' = closed_fds ?w1 @ map (\<lambda>p. fd (heap ?w1 p)) ?vs"
      "freed w' = freed ?w1 @ ?vs" "mnexts (heap w') = mnexts (heap ?w1)"
    and fields: "\<forall>q. fd (heap w' q) = fd (heap ?w1 q) \<and>
          memdata_bitmask (heap w' q) = memdata_bitmask (heap ?w1 q) \<and>
          state (heap w' q) =
            (if q \<in> set ?vs \<and> legal_transition (state (heap ?w1 q)) DCB_STATE_DISCONNECTED
             then DCB_STATE_DISCONNECTED else state (heap ?w1 q))"
    by blast
  from Some scan r have res: "dcb_process_zombies intact tid w = Some w'"
    by (simp add: dcb_process_zombies_def)
  from c1 other have zl': "zombie_list w' (filter (\<lambda>p. \<not> reapable tid (heap w) p) zs)"
    by (simp add: zombie_list_def)
  have "\<forall>q. fd (heap w' q) = fd (heap w q) \<and>
          memdata_bitmask (heap w' q) =
            (if q \<in> set zs then bitmask_clear (memdata_bitmask (heap w q)) tid
             else memdata_bitmask (heap w q)) \<and>
          state (heap w' q) =
            (if q \<in> set zs \<and> reapable tid (heap w) q \<and>
                legal_transition (state (heap w q)) DCB_STATE_DISCONNECTED
             then DCB_STATE_DISCONNECTED else state (heap w q))"
    using fields mask relinkedD(1,2) [OF rl] by auto
  moreover have "closed_fds w' = closed_fds w @ map (\<lambda>p. fd (heap w p)) ?vs"
    using other(3) relinkedD(2) [OF rl] by simp
  ultimately show ?thesis
    using res zl' reg' other
    by (intro exI [of _ w']) simp
qed

lemma reapable_iff: "reapable tid h p \<longleftrightarrow> memdata_bitmask (h p) \<subseteq> {tid}"
  by (auto simp add: reapable_def bitmask_isallclear_def bitmask_clear_def)

lemma process_all_drains:
  assumes "zombie_list w zs" and "registry w rs"
  shows "\<exists>w' zs' fs. process_all intact ts w = Some w' \<and> zombie_list w' zs' \<and>
      registry w' (filter (\<lambda>p. p \<notin> set fs) rs) \<and>
      freed w' = freed w @ fs \<and> distinct fs \<and> set fs = set zs - set zs' \<and>
      set zs' \<subseteq> set zs \<and>
      (\<forall>p\<in>set zs. ts \<noteq> [] \<and> memdata_bitmask (heap w p) \<subseteq> set ts \<longrightarrow> p \<in> set fs)"
  using assms
proof (induction ts arbitrary: w zs rs)
  case Nil
  then have "process_all intact [] w = Some w \<and> zombie_list w zs \<and>
      registry w (filter (\<lambda>p. p \<notin> set []) rs) \<and>
      freed w = freed w @ [] \<and> distinct ([]::ptr list) \<and> set [] = set zs - set zs \<and>
      set zs \<subseteq> set zs \<and>
      (\<forall>p\<in>set zs. ([]::int list) \<noteq> [] \<and> memdata_bitmask (heap w p) \<subseteq> set [] \<longrightarrow> p \<in> set [])"
    by simp
  then show ?case by blast
next
  case (Cons t ts)
  let ?vs = "filter (reapable t (heap w)) zs"
  let ?zs1 = "filter (\<lambda>p. \<not> reapable t (heap w) p) zs"
  let ?rs1 = "filter (\<lambda>p. p \<notin> set ?vs) rs"
  from Cons.prems(1) have dz: "distinct zs"
    by (auto simp add: zombie_list_def dest: chain_distinct)
  from dcb_process_zombies_effect [OF Cons.prems, of t]
  obtain w1 where p1: "dcb_process_zombies intact t w = Some w1"
    and zl1: "zombie_list w1 ?zs1" and reg1: "registry w1 ?rs1"
    and fr1: "freed w1 = freed w @ ?vs"
    and mask1: "\<forall>q. memdata_bitmask (heap w1 q) =
            (if q \<in> set zs then bitmask_clear (memdata_bitmask (heap w q)) t
             else memdata_bitmask (heap w q))"
    by blast
  from Cons.IH [OF zl1 reg1]
  obtain w' zs' fs where pa: "process_all intact ts w1 = Some w'" and zl': "zombie_list w' zs'"
    and reg': "registry w' (filter (\<lambda>p. p \<notin> set fs) ?rs1)"
    and fr': "freed w' = freed w1 @ fs" and dfs: "distinct fs"
    and sfs: "set fs = set ?zs1 - set zs'" and sub: "set zs' \<subseteq> set ?zs1"
    and drained: "\<forall>p\<in>set ?zs1. ts \<noteq> [] \<and> memdata_bitmask (heap w1 p) \<subseteq> set ts \<longrightarrow> p \<in> set fs"
    by blast
  have res: "process_all intact (t # ts) w = Some w'"
    using p1 pa by simp
  have reg'': "registry w' (filter (\<lambda>p. p \<notin> set (?vs @ fs)) rs)"
  proof -
    have "filter (\<lambda>p. p \<notin> set fs) ?rs1 = filter (\<lambda>p. p \<notin> set (?vs @ fs)) rs"
      by (induction rs) auto
    with reg' show ?thesis by simp
  qed
  have d: "distinct (?vs @ fs)"
    using dz dfs sfs by auto
  have s: "set (?vs @ fs) = set zs - set zs'"
    using sfs sub by auto
  have sub': "set zs' \<subseteq> set zs"
    using sub by auto
  have fr'': "freed w' = freed w @ (?vs @ fs)"
    using fr1 fr' by simp
  have drained': "\<forall>p\<in>set zs. t # ts \<noteq> [] \<and> memdata_bitmask (heap w p) \<subseteq> set (t # ts) \<longrightarrow>
      p \<in> set (?vs @ fs)"
  proof (intro ballI impI)
    fix p
    assume p: "p \<in> set zs"
      and m: "t # ts \<noteq> [] \<and> memdata_bitmask (heap w p) \<subseteq> set (t # ts)"
    show "p \<in> set (?vs @ fs)"
    proof (cases "reapable t (heap w) p")
      case True
      with p show ?thesis by simp
    next
      case False
      with p have in1: "p \<in> set ?zs1" by simp
      from mask1 p have m1: "memdata_bitmask (heap w1 p) = memdata_bitmask (heap w p) - {t}"
        by (simp add: bitmask_clear_def)
      with m have "memdata_bitmask (heap w1 p) \<subseteq> set ts" by auto
      moreover from False m1 have "memdata_bitmask (heap w1 p) \<noteq> {}"
        by (auto simp add: reapable_iff)
      ultimately have "ts \<noteq> [] \<and> memdata_bitmask (heap w1 p) \<subseteq> set ts" by auto
      with drained in1 show ?thesis by auto
    qed
  qed
  from res zl' reg'' fr'' d s sub' drained' show ?case by blast
qed

lemma zombie_world_lists:
  "zombie_list zombie_world [1, 2]" "registry zombie_world [1, 2]"
  by (simp_all add: zombie_list_def registry_def zombie_world_def empty_world_def
      sample_dcb_def mnexts_def nexts_def)

text \<open>
  While every released block keeps its bytes until the loop has read the link: on a
  well-formed zombie list whose members are in state \<^verbatim>\<open>ZOMBIE\<close>, and a well-formed
  registry, \<^verbatim>\<open>dcb_process_zombies (threadid)\<close> returns; it has cleared the bit
  \<open>threadid\<close> in the mask of every member; the members whose mask became all clear, and
  only they, are off the list, their descriptors closed in list order, their state
  \<^verbatim>\<open>DISCONNECTED\<close>, each released once by \<^verbatim>\<open>dcb_final_free\<close> and gone from the registry;
  the others stay zombies. Hence after any non-empty sequence \<open>ts\<close> of calls, every member
  whose mask is within \<open>ts\<close> has been released, once, and is on neither list.
\<close>

lemma dcb_process_zombies_drains_intact:
  assumes "zombie_list w zs" and "registry w rs"
    and "\<forall>p\<in>set zs. state (heap w p) = DCB_STATE_ZOMBIE"
  shows "(\<exists>w'. dcb_process_zombies intact threadid w = Some w' \<and>
        (\<forall>p\<in>set zs. memdata_bitmask (heap w' p) =
            bitmask_clear (memdata_bitmask (heap w p)) threadid) \<and>
        zombie_list w' (filter (\<lambda>p. \<not> reapable threadid (heap w) p) zs) \<and>
        closed_fds w' =
          closed_fds w @ map (\<lambda>p. fd (heap w p)) (filter (reapable threadid (heap w)) zs) \<and>
        freed w' = freed w @ filter (reapable threadid (heap w)) zs \<and>
        registry w' (filter (\<lambda>p. p \<notin> set (filter (reapable threadid (heap w)) zs)) rs) \<and>
        (\<forall>p\<in>set zs. state (heap w' p) =
            (if reapable threadid (heap w) p then DCB_STATE_DISCONNECTED
             else DCB_STATE_ZOMBIE))) \<and>
     (\<forall>ts. ts \<noteq> [] \<longrightarrow>
        (\<exists>w' zs' rs' fs. process_all intact ts w = Some w' \<and> zombie_list w' zs' \<and>
           registry w' rs' \<and> freed w' = freed w @ fs \<and> distinct fs \<and>
           (\<forall>p\<in>set zs. memdata_bitmask (heap w p) \<subseteq> set ts \<longrightarrow>
              p \<in> set fs \<and> p \<notin> set zs' \<and> p \<notin> set rs')))"
proof (intro conjI allI impI)
  from dcb_process_zombies_effect [OF assms(1,2), of threadid]
  obtain w' where "dcb_process_zombies intact threadid w = Some w'"
    and "zombie_list w' (filter (\<lambda>p. \<not> reapable threadid (heap w) p) zs)"
    and "registry w' (filter (\<lambda>p. p \<notin> set (filter (reapable threadid (heap w)) zs)) rs)"
    and "closed_fds w' =
      closed_fds w @ map (\<lambda>p. fd (heap w p)) (filter (reapable threadid (heap w)) zs)"
    and "freed w' = freed w @ filter (reapable threadid (heap w)) zs"
    and fields: "\<forall>q. fd (heap w' q) = fd (heap w q) \<and>
          memdata_bitmask (heap w' q) =
            (if q \<in> set zs then bitmask_clear (memdata_bitmask (heap w q)) threadid
             else memdata_bitmask (heap w q)) \<and>
          state (heap w' q) =
            (if q \<in> set zs \<and> reapable threadid (heap w) q \<and>
                legal_transition (state (heap w q)) DCB_STATE_DISCONNECTED
             then DCB_STATE_DISCONNECTED else state (heap w q))"
    by blast
  moreover from fields assms(3)
  have "\<forall>p\<in>set zs. state (heap w' p) =
      (if reapable threadid (heap w) p then DCB_STATE_DISCONNECTED else DCB_STATE_ZOMBIE)"
    by simp
  moreover from fields
  have "\<forall>p\<in>set zs. memdata_bitmask (heap w' p) =
      bitmask_clear (memdata_bitmask (heap w p)) threadid"
    by simp
  ultimately show "\<exists>w'. dcb_process_zombies intact threadid w = Some w' \<and>
        (\<forall>p\<in>set zs. memdata_bitmask (heap w' p) =
            bitmask_clear (memdata_bitmask (heap w p)) threadid) \<and>
        zombie_list w' (filter (\<lambda>p. \<not> reapable threadid (heap w) p) zs) \<and>
        closed_fds w' =
          closed_fds w @ map (\<lambda>p. fd (heap w p)) (filter (reapable threadid (heap w)) zs) \<and>
        freed w' = freed w @ filter (reapable threadid (heap w)) zs \<and>
        registry w' (filter (\<lambda>p. p \<notin> set (filter (reapable threadid (heap w)) zs)) rs) \<and>
        (\<forall>p\<in>set zs. state (heap w' p) =
            (if reapable threadid (heap w) p then DCB_STATE_DISCONNECTED
             else DCB_STATE_ZOMBIE))"
    by blast
next
  fix ts :: "int list"
  assume ne: "ts \<noteq> []"
  from process_all_drains [OF assms(1,2), of ts]
  obtain w' zs' fs where pa: "process_all intact ts w = Some w'" and zl: "zombie_list w' zs'"
    and reg: "registry w' (filter (\<lambda>p. p \<notin> set fs) rs)"
    and fr: "freed w' = freed w @ fs" and d: "distinct fs"
    and s: "set fs = set zs - set zs'"
    and dr: "\<forall>p\<in>set zs. ts \<noteq> [] \<and> memdata_bitmask (heap w p) \<subseteq> set ts \<longrightarrow> p \<in> set fs"
    by blast
  from ne dr s have "\<forall>p\<in>set zs. memdata_bitmask (heap w p) \<subseteq> set ts \<longrightarrow>
      p \<in> set fs \<and> p \<notin> set zs' \<and> p \<notin> set (filter (\<lambda>p. p \<notin> set fs) rs)"
    by auto
  with pa zl reg fr d
  show "\<exists>w' zs' rs' fs. process_all intact ts w = Some w' \<and> zombie_list w' zs' \<and>
           registry w' rs' \<and> freed w' = freed w @ fs \<and> distinct fs \<and>
           (\<forall>p\<in>set zs. memdata_bitmask (heap w p) \<subseteq> set ts \<longrightarrow>
              p \<in> set fs \<and> p \<notin> set zs' \<and> p \<notin> set rs')"
    by blast
qed


lemma dcb_process_zombies_drains_intact_example:
  "zombie_list zombie_world [1, 2] \<and> registry zombie_world [1, 2] \<and>
   state (heap zombie_world 1) = DCB_STATE_ZOMBIE \<and>
   state (heap zombie_world 2) = DCB_STATE_ZOMBIE \<and>
   (\<exists>w'. dcb_process_zombies intact 0 zombie_world = Some w' \<and>
      memdata_bitmask (heap w' 2) = {1} \<and> zombie_list w' [2] \<and> closed_fds w' = [7] \<and>
      freed w' = [1] \<and> registry w' [2] \<and>
      state (heap w' 1) = DCB_STATE_DISCONNECTED \<and> state (heap w' 2) = DCB_STATE_ZOMBIE) \<and>
   (\<exists>w' zs' rs'. process_all intact [1, 0] zombie_world = Some w' \<and> zombie_list w' zs' \<and>
      registry w' rs' \<and> set (freed w') = {1, 2} \<and> distinct (freed w') \<and>
      1 \<notin> set zs' \<and> 2 \<notin> set zs' \<and> 1 \<notin> set rs' \<and> 2 \<notin> set rs')"
proof -
  have st: "\<forall>p\<in>set [1, 2]. state (heap zombie_world p) = DCB_STATE_ZOMBIE"
    by (simp add: zombie_world_def)
  have r1: "reapable 0 (heap zombie_world) 1" and r2: "\<not> reapable 0 (heap zombie_world) 2"
    by (simp_all add: reapable_iff zombie_world_def)
  have fds: "fd (heap zombie_world 1) = 7" "freed zombie_world = []" "closed_fds zombie_world = []"
    and masks: "memdata_bitmask (heap zombie_world 1) = {0}"
      "memdata_bitmask (heap zombie_world 2) = {0, 1}"
    by (simp_all add: zombie_world_def empty_world_def)
  note inst = dcb_process_zombies_drains_intact [OF zombie_world_lists st, of 0]
  from inst obtain w' where "dcb_process_zombies intact 0 zombie_world = Some w'"
    and "\<forall>p\<in>set [1, 2]. memdata_bitmask (heap w' p) =
            bitmask_clear (memdata_bitmask (heap zombie_world p)) 0"
    and "zombie_list w' (filter (\<lambda>p. \<not> reapable 0 (heap zombie_world) p) [1, 2])"
    and "closed_fds w' = closed_fds zombie_world @
          map (\<lambda>p. fd (heap zombie_world p)) (filter (reapable 0 (heap zombie_world)) [1, 2])"
    and "freed w' = freed zombie_world @ filter (reapable 0 (heap zombie_world)) [1, 2]"
    and "registry w'
          (filter (\<lambda>p. p \<notin> set (filter (reapable 0 (heap zombie_world)) [1, 2])) [1, 2])"
    and "\<forall>p\<in>set [1, 2]. state (heap w' p) =
            (if reapable 0 (heap zombie_world) p then DCB_STATE_DISCONNECTED
             else DCB_STATE_ZOMBIE)"
    by blast
  with r1 r2 fds masks have one: "\<exists>w'. dcb_process_zombies intact 0 zombie_world = Some w' \<and>
      memdata_bitmask (heap w' 2) = {1} \<and> zombie_list w' [2] \<and> closed_fds w' = [7] \<and>
      freed w' = [1] \<and> registry w' [2] \<and>
      state (heap w' 1) = DCB_STATE_DISCONNECTED \<and> state (heap w' 2) = DCB_STATE_ZOMBIE"
    by (intro exI [of _ w']) (simp add: bitmask_clear_def)
  from inst have "\<exists>w' zs' rs' fs. process_all intact [1, 0] zombie_world = Some w' \<and>
      zombie_list w' zs' \<and> registry w' rs' \<and> freed w' = freed zombie_world @ fs \<and>
      distinct fs \<and>
      (\<forall>p\<in>set [1, 2]. memdata_bitmask (heap zombie_world p) \<subseteq> set [1, 0] \<longrightarrow>
         p \<in> set fs \<and> p \<notin> set zs' \<and> p \<notin> set rs')"
    by blast
  then obtain w' zs' rs' fs where pa: "process_all intact [1, 0] zombie_world = Some w'"
    and l: "zombie_list w' zs'" "registry w' rs'" and fr: "freed w' = fs" "distinct fs"
    and dr: "1 \<in> set fs \<and> 1 \<notin> set zs' \<and> 1 \<notin> set rs'" "2 \<in> set fs \<and> 2 \<notin> set zs' \<and> 2 \<notin> set rs'"
    using fds masks by auto
  from process_all_drains [OF zombie_world_lists, of "[1, 0]"] pa fr fds
  have "set fs \<subseteq> {1, 2}" by auto
  with dr have "set fs = {1, 2}" by auto
  with pa l fr dr have two: "\<exists>w' zs' rs'. process_all intact [1, 0] zombie_world = Some w' \<and>
      zombie_list w' zs' \<and> registry w' rs' \<and> set (freed w') = {1, 2} \<and> distinct (freed w') \<and>
      1 \<notin> set zs' \<and> 2 \<notin> set zs' \<and> 1 \<notin> set rs' \<and> 2 \<notin> set rs'"
    by auto
  from one two zombie_world_lists show ?thesis
    by (simp add: zombie_world_def)
qed

text \<open>
  The same call on two zombies that both wait for worker 0 only, with the released blocks
  intact: both are closed, released and gone from the lists.
\<close>

lemma dcb_process_zombies_intact_example:
  "map_option (\<lambda>w. (zombies w, allDCBs w, closed_fds w, freed w,
       state (heap w 1), state (heap w 2), memdata_bitmask (heap w 2)))
     (dcb_process_zombies intact 0 victims_world)
   = Some (None, None, [7, 8], [1, 2], DCB_STATE_DISCONNECTED, DCB_STATE_DISCONNECTED, {})"
  by code_simp

text \<open>
  C1. Two zombies, on a well-formed list and registry, wait for worker 0 only, and worker
  0 calls \<^verbatim>\<open>dcb_process_zombies\<close>. Both masks become all clear and both zombies leave the
  list. The second loop closes and releases the first and then reads the next victim from
  the block it has released; when that block has been handed out again and holds
  \<^verbatim>\<open>NULL\<close>, the loop ends there: the descriptor of the second is not closed, it keeps the
  state \<^verbatim>\<open>ZOMBIE\<close>, it is not released and it stays in the registry, while no list of
  zombies holds it any more.
\<close>

theorem dcb_process_zombies_loses_victim:
  "zombie_list victims_world [1, 2] \<and> registry victims_world [1, 2] \<and>
   reapable 0 (heap victims_world) 1 \<and> reapable 0 (heap victims_world) 2 \<and>
   map_option (\<lambda>w. (zombies w, allDCBs w, closed_fds w, freed w,
       state (heap w 1), state (heap w 2), memdata_bitmask (heap w 2)))
     (dcb_process_zombies reused 0 victims_world)
   = Some (None, Some 2, [7], [1], DCB_STATE_DISCONNECTED, DCB_STATE_ZOMBIE, {})"
  by code_simp

end
